theory Spec2Isabelle
  imports Complex_Main "HOL-Library.Word" "HOL-Library.Multiset"
begin

unbundle bit_operations_syntax

section \<open>netsort: distributed sort of fixed-size records\<close>

text \<open>
  The development follows \<^verbatim>\<open>netsort.go\<close>; line numbers refer to that file. A
  record is a 10-byte key and a 90-byte value. Go's fixed-size arrays \<^verbatim>\<open>[10]byte\<close>
  and \<^verbatim>\<open>[90]byte\<close> are modelled as byte lists; \<open>wf_Record\<close> states the two
  lengths the Go types enforce.

  What the environment does is fixed as follows. Dialling a peer succeeds
  (\<^verbatim>\<open>connectToSocket\<close> retries until it does), and so do opening and creating the
  files and every write on a connection or on the output file; a write on a connection
  appends to the bytes its peer will read. A read on a connection may return fewer bytes
  than asked for. Node ids and cluster sizes are natural numbers: a negative
  \<^verbatim>\<open>serverID\<close> panics at line 155 like one beyond the topology.
\<close>

subsection \<open>Records and errors\<close>

type_synonym byte = "8 word"

record Record =
  Key :: "byte list"
  Value :: "byte list"

definition wf_Record :: "Record \<Rightarrow> bool" where
  "wf_Record r = (length (Key r) = 10 \<and> length (Value r) = 90)"

text \<open>
  Every way the modelled code stops early: \<open>EOF\<close> is the error of a read on a closed,
  empty stream (fatal through \<^verbatim>\<open>checkErrorAndExit\<close>), \<open>NegativeShift\<close> is Go's
  run-time panic for a negative shift count, \<open>IndexOutOfRange\<close> the panic of a slice
  index beyond its length.
\<close>

datatype error = EOF | NegativeShift | IndexOutOfRange

text \<open>
  \<^verbatim>\<open>copy(dst[:], src)\<close> into a zero-initialised array of \<open>n\<close> bytes: the first
  \<open>min n (len src)\<close> bytes are overwritten, the others stay zero.
\<close>

definition copy_into :: "nat \<Rightarrow> byte list \<Rightarrow> byte list" where
  "copy_into n src = take n src @ replicate (n - length src) 0"

text \<open>The slice expression \<^verbatim>\<open>data[lo:hi]\<close>, used only where \<open>hi \<le> length data\<close>.\<close>

definition slice :: "byte list \<Rightarrow> nat \<Rightarrow> nat \<Rightarrow> byte list" where
  "slice data lo hi = take (hi - lo) (drop lo data)"

subsection \<open>Inbound connections\<close>

text \<open>
  An inbound connection is the byte stream the peer wrote before closing its end
  (\<open>pending\<close>) together with a schedule of chunk sizes (\<open>sched\<close>): the transport may
  hand over fewer bytes than a read asks for. \<^verbatim>\<open>conn.Read(buf)\<close> returns at least
  one byte while bytes are pending, at most \<open>len(buf)\<close>, and the next scheduled chunk size
  in between; an exhausted schedule delivers as much as was asked for. A read on an
  exhausted stream returns the error \<open>EOF\<close>.
\<close>

record conn =
  pending :: "byte list"
  sched :: "nat list"

definition conn_Read :: "conn \<Rightarrow> nat \<Rightarrow> error + (byte list \<times> conn)" where
  "conn_Read c m =
     (if m = 0 then Inr ([], c)
      else if pending c = [] then Inl EOF
      else let n = min m (case sched c of [] \<Rightarrow> m | s # _ \<Rightarrow> max 1 s)
           in Inr (take n (pending c), \<lparr>pending = drop n (pending c), sched = tl (sched c)\<rparr>))"

lemma conn_Read_Inr:
  assumes "conn_Read c m = Inr (buf, c')" and "0 < m"
  shows "\<exists>n. 0 < n \<and> n \<le> m \<and> n \<le> length (pending c) \<and> buf = take n (pending c)
           \<and> pending c' = drop n (pending c) \<and> sched c' = tl (sched c)"
proof -
  have ne: "pending c \<noteq> []"
    using assms by (auto simp: conn_Read_def split: if_splits)
  define k where "k = min m (case sched c of [] \<Rightarrow> m | s # _ \<Rightarrow> max 1 s)"
  have kpos: "0 < k" and km: "k \<le> m"
    using assms(2) by (auto simp: k_def split: list.splits)
  have res: "buf = take k (pending c)" "c' = \<lparr>pending = drop k (pending c), sched = tl (sched c)\<rparr>"
    using assms ne by (auto simp: conn_Read_def Let_def k_def)
  define n where "n = min k (length (pending c))"
  have "0 < n" using kpos ne by (simp add: n_def)
  moreover have "n \<le> m" using km by (simp add: n_def)
  moreover have "n \<le> length (pending c)" by (simp add: n_def)
  moreover have "buf = take n (pending c)" using res(1) by (simp add: n_def min_def)
  moreover have "pending c' = drop n (pending c)" using res(2) by (simp add: n_def min_def)
  moreover have "sched c' = tl (sched c)" using res(2) by simp
  ultimately show ?thesis by blast
qed

lemma conn_Read_pos:
  "conn_Read c m = Inr (chunk, c') \<Longrightarrow> 0 < m \<Longrightarrow> 0 < length chunk"
  by (drule (1) conn_Read_Inr) auto

lemma conn_Read_EOF:
  "0 < m \<Longrightarrow> (conn_Read c m = Inl e) = (pending c = [] \<and> e = EOF)"
  by (auto simp: conn_Read_def Let_def)

text \<open>
  The inner loop of \<^verbatim>\<open>receiveData\<close> (lines 108-118): ask for the
  \<open>101 - bytesToRead\<close> bytes still missing, append what arrived, stop at 101. A read
  error is fatal.
\<close>

function read_frame :: "conn \<Rightarrow> nat \<Rightarrow> byte list \<Rightarrow> error + (byte list \<times> conn)" where
  "read_frame c bytesToRead data =
     (case conn_Read c (101 - bytesToRead) of
        Inl e \<Rightarrow> Inl e
      | Inr (buf, c') \<Rightarrow>
          if bytesToRead + length buf \<ge> 101 then Inr (data @ buf, c')
          else read_frame c' (bytesToRead + length buf) (data @ buf))"
  by pat_completeness auto
termination
proof (relation "measure (\<lambda>(c, b, d). 101 - b)", goal_cases)
  case 1
  show ?case by simp
next
  case (2 c bytesToRead data x buf c')
  have "0 < length buf"
  proof (rule conn_Read_pos)
    show "conn_Read c (101 - bytesToRead) = Inr (buf, c')" using 2 by simp
    show "0 < 101 - bytesToRead" using 2 by simp
  qed
  with 2 show ?case by (cases buf) auto
qed

lemma read_frame_enough:
  "b < 101 \<Longrightarrow> 101 - b \<le> length (pending c) \<Longrightarrow>
   \<exists>s'. read_frame c b d =
      Inr (d @ take (101 - b) (pending c), \<lparr>pending = drop (101 - b) (pending c), sched = s'\<rparr>)"
proof (induction c b d rule: read_frame.induct)
  case (1 c b d)
  from 1(2,3) have ne: "pending c \<noteq> []" by auto
  then obtain buf c1 where rd: "conn_Read c (101 - b) = Inr (buf, c1)"
    using 1(2) by (cases "conn_Read c (101 - b)") (auto simp: conn_Read_EOF)
  from conn_Read_Inr [OF rd] 1(2) obtain n where n: "0 < n" "n \<le> 101 - b" "n \<le> length (pending c)"
    "buf = take n (pending c)" "pending c1 = drop n (pending c)" by auto
  have lb: "length buf = n" using n by simp
  show ?case
  proof (cases "101 \<le> b + length buf")
    case True
    then have "n = 101 - b" using n(2) lb by simp
    then show ?thesis
      using rd True n by (cases c1) (simp add: read_frame.simps [of c b d])
  next
    case False
    have "\<exists>s'. read_frame c1 (b + length buf) (d @ buf) =
       Inr ((d @ buf) @ take (101 - (b + length buf)) (pending c1),
            \<lparr>pending = drop (101 - (b + length buf)) (pending c1), sched = s'\<rparr>)"
    proof (rule 1(1) [OF rd refl])
      show "\<not> 101 \<le> b + length buf" by (rule False)
      show "b + length buf < 101" using False by simp
      show "101 - (b + length buf) \<le> length (pending c1)" using n 1(3) lb by simp
    qed
    then obtain s' where rec: "read_frame c1 (b + length buf) (d @ buf) =
       Inr ((d @ buf) @ take (101 - (b + length buf)) (pending c1),
            \<lparr>pending = drop (101 - (b + length buf)) (pending c1), sched = s'\<rparr>)" ..
    have t: "buf @ take (101 - (b + length buf)) (pending c1) = take (101 - b) (pending c)"
    proof -
      have "101 - b = n + (101 - (b + n))" using n(2) by simp
      then have "take (101 - b) (pending c) = take n (pending c) @ take (101 - (b + n)) (drop n (pending c))"
        by (metis take_add)
      then show ?thesis using n lb by simp
    qed
    have dr: "drop (101 - (b + length buf)) (pending c1) = drop (101 - b) (pending c)"
      using n lb by (simp add: add.commute)
    show ?thesis
      using rd False rec t dr by (simp add: read_frame.simps [of c b d])
  qed
qed

lemma read_frame_short:
  "b < 101 \<Longrightarrow> length (pending c) < 101 - b \<Longrightarrow> read_frame c b d = Inl EOF"
proof (induction c b d rule: read_frame.induct)
  case (1 c b d)
  show ?case
  proof (cases "conn_Read c (101 - b)")
    case (Inl e)
    moreover have "e = EOF" using Inl 1(2) by (simp add: conn_Read_EOF)
    ultimately show ?thesis by (simp add: read_frame.simps [of c b d])
  next
    case (Inr p)
    obtain buf c1 where rd: "conn_Read c (101 - b) = Inr (buf, c1)" using Inr by (cases p) simp
    from conn_Read_Inr [OF rd] 1(2) obtain n where n: "0 < n" "n \<le> 101 - b" "n \<le> length (pending c)"
      "buf = take n (pending c)" "pending c1 = drop n (pending c)" by auto
    have lb: "length buf = n" using n by simp
    have F: "\<not> 101 \<le> b + length buf" using lb n 1(3) by simp
    have "read_frame c1 (b + length buf) (d @ buf) = Inl EOF"
    proof (rule 1(1) [OF rd refl F])
      show "b + length buf < 101" using F by simp
      show "length (pending c1) < 101 - (b + length buf)" using n lb 1(3) by simp
    qed
    then show ?thesis using rd F by (simp add: read_frame.simps [of c b d])
  qed
qed

subsection \<open>Frames\<close>

text \<open>
  The dispatch loop writes a data frame as three writes on the connection (lines
  218-224): the control byte 0, the key, the value. The terminator (lines 228-236) is
  the control byte 1 followed by a zero key and a zero value.
\<close>

definition data_frame :: "Record \<Rightarrow> byte list" where
  "data_frame r = [0] @ Key r @ Value r"

definition terminator_frame :: "byte list" where
  "terminator_frame = [1] @ replicate 10 0 @ replicate 90 0"

text \<open>
  Lines 121-123: the key is copied from \<^verbatim>\<open>data[1:11]\<close>, the value from
  \<^verbatim>\<open>data[11:101]\<close>.
\<close>

definition decode_record :: "byte list \<Rightarrow> Record" where
  "decode_record data =
     \<lparr>Key = copy_into 10 (slice data 1 11), Value = copy_into 90 (slice data 11 101)\<rparr>"

text \<open>
  The reader of one inbound connection (lines 100-128). \<open>delivered\<close> is the sequence
  of records sent on the delivery channel so far. \<open>Inr (delivered, c)\<close> is the normal
  return: the terminator was read and the deferred \<^verbatim>\<open>close(dataChannel)\<close> ran.
  \<open>Inl e\<close> is the fatal exit of \<^verbatim>\<open>checkErrorAndExit\<close>.
\<close>

function receiveData :: "conn \<Rightarrow> Record list \<Rightarrow> error + (Record list \<times> conn)" where
  "receiveData c delivered =
     (case read_frame c 0 [] of
        Inl e \<Rightarrow> Inl e
      | Inr (data, c') \<Rightarrow>
          let streamComplete = (data ! 0 = 1) in
          if \<not> streamComplete then receiveData c' (delivered @ [decode_record data])
          else Inr (delivered, c'))"
  by pat_completeness auto
termination
proof (relation "measure (\<lambda>(c, d). length (pending c))", goal_cases)
  case 1
  show ?case by simp
next
  case (2 c delivered x data c' streamComplete)
  have rd: "read_frame c 0 [] = Inr (data, c')" using 2 by simp
  have "101 \<le> length (pending c)"
  proof (rule ccontr)
    assume "\<not> 101 \<le> length (pending c)"
    then have "read_frame c 0 [] = Inl EOF" by (intro read_frame_short) auto
    with rd show False by simp
  qed
  moreover from this obtain s' where
    "read_frame c 0 [] = Inr ([] @ take (101 - 0) (pending c),
        \<lparr>pending = drop (101 - 0) (pending c), sched = s'\<rparr>)"
    using read_frame_enough [of 0 c "[]"] by auto
  with rd have "pending c' = drop 101 (pending c)" by auto
  ultimately show ?case by simp
qed

lemma read_frame_whole:
  assumes "length frame = 101"
  shows "\<exists>s'. read_frame \<lparr>pending = frame @ rest, sched = s\<rparr> 0 [] =
           Inr (frame, \<lparr>pending = rest, sched = s'\<rparr>)"
  using read_frame_enough [of 0 "\<lparr>pending = frame @ rest, sched = s\<rparr>" "[]"] assms
  by simp

lemma receiveData_data_step:
  assumes "length frame = 101" and "frame ! 0 \<noteq> 1"
  shows "\<exists>s'. receiveData \<lparr>pending = frame @ rest, sched = s\<rparr> dl =
           receiveData \<lparr>pending = rest, sched = s'\<rparr> (dl @ [decode_record frame])"
proof -
  from read_frame_whole [OF assms(1)] obtain s' where
    "read_frame \<lparr>pending = frame @ rest, sched = s\<rparr> 0 [] = Inr (frame, \<lparr>pending = rest, sched = s'\<rparr>)"
    by blast
  then have "receiveData \<lparr>pending = frame @ rest, sched = s\<rparr> dl =
           receiveData \<lparr>pending = rest, sched = s'\<rparr> (dl @ [decode_record frame])"
    using assms(2) by (simp add: receiveData.simps [of "\<lparr>pending = frame @ rest, sched = s\<rparr>"])
  then show ?thesis ..
qed

lemma receiveData_terminator_step:
  assumes "length frame = 101" and "frame ! 0 = 1"
  shows "\<exists>s'. receiveData \<lparr>pending = frame @ rest, sched = s\<rparr> dl =
           Inr (dl, \<lparr>pending = rest, sched = s'\<rparr>)"
proof -
  from read_frame_whole [OF assms(1)] obtain s' where
    "read_frame \<lparr>pending = frame @ rest, sched = s\<rparr> 0 [] = Inr (frame, \<lparr>pending = rest, sched = s'\<rparr>)"
    by blast
  then have "receiveData \<lparr>pending = frame @ rest, sched = s\<rparr> dl = Inr (dl, \<lparr>pending = rest, sched = s'\<rparr>)"
    using assms(2) by (simp add: receiveData.simps [of "\<lparr>pending = frame @ rest, sched = s\<rparr>"])
  then show ?thesis ..
qed

lemma decode_data_frame:
  "wf_Record r \<Longrightarrow> decode_record (data_frame r) = r"
  by (simp add: wf_Record_def decode_record_def data_frame_def copy_into_def slice_def)

lemma length_data_frame:
  "wf_Record r \<Longrightarrow> length (data_frame r) = 101"
  by (simp add: wf_Record_def data_frame_def)

lemma length_terminator_frame: "length terminator_frame = 101"
  by (simp add: terminator_frame_def)

lemma receiveData_stream:
  assumes "\<forall>r \<in> set rs. wf_Record r"
  shows "\<exists>s'. receiveData \<lparr>pending = concat (map data_frame rs) @ terminator_frame @ rest, sched = s\<rparr> dl =
           Inr (dl @ rs, \<lparr>pending = rest, sched = s'\<rparr>)"
  using assms
proof (induction rs arbitrary: s dl)
  case Nil
  show ?case
    using receiveData_terminator_step [of terminator_frame rest s dl]
    by (simp add: length_terminator_frame) (simp add: terminator_frame_def)
next
  case (Cons r rs)
  have wf: "wf_Record r" using Cons.prems by simp
  have c0: "data_frame r ! 0 \<noteq> 1" by (simp add: data_frame_def)
  from receiveData_data_step [OF length_data_frame [OF wf] c0] obtain s1 where
    st: "receiveData \<lparr>pending = data_frame r @ (concat (map data_frame rs) @ terminator_frame @ rest), sched = s\<rparr> dl =
       receiveData \<lparr>pending = concat (map data_frame rs) @ terminator_frame @ rest, sched = s1\<rparr>
          (dl @ [decode_record (data_frame r)])"
    by blast
  from Cons.IH [of s1 "dl @ [r]"] Cons.prems obtain s2 where
    "receiveData \<lparr>pending = concat (map data_frame rs) @ terminator_frame @ rest, sched = s1\<rparr> (dl @ [r]) =
       Inr ((dl @ [r]) @ rs, \<lparr>pending = rest, sched = s2\<rparr>)"
    by auto
  with st show ?case by (auto simp: decode_data_frame [OF wf])
qed

declare read_frame.simps [simp del]

declare receiveData.simps [simp del]

subsection \<open>Partitioning\<close>

text \<open>
  Line 171: \<^verbatim>\<open>msb := int(math.Log2(float64(numServers)))\<close>, the base-2 logarithm
  truncated to an integer, computed here by halving. \<open>msb_floor_log2\<close> below shows
  that this is the floor of the real logarithm for every positive cluster size.
\<close>

fun msb :: "nat \<Rightarrow> nat" where
  "msb n = (if n < 2 then 0 else Suc (msb (n div 2)))"

declare msb.simps [simp del]

text \<open>
  Lines 204-205: \<^verbatim>\<open>keyToServer := int(firstByte) >> (8 - msb)\<close>. The shift count is
  a signed integer; Go panics when it is negative, which happens as soon as
  \<open>msb\<close> exceeds 8. The empty key is a shape the Go type \<^verbatim>\<open>[10]byte\<close> excludes.
\<close>

definition keyToServer :: "byte list \<Rightarrow> nat \<Rightarrow> error + nat" where
  "keyToServer key numServers =
     (case key of
        [] \<Rightarrow> Inl IndexOutOfRange
      | firstByte # _ \<Rightarrow>
          if 8 < msb numServers then Inl NegativeShift
          else Inr (drop_bit (8 - msb numServers) (unat firstByte)))"

lemma msb_bounds: "0 < n \<Longrightarrow> 2 ^ msb n \<le> n \<and> n < 2 ^ Suc (msb n)"
proof (induction n rule: msb.induct)
  case (1 n)
  show ?case
  proof (cases "n < 2")
    case True
    with 1(2) have "n = 1" by simp
    moreover have "msb (Suc 0) = 0" by (simp add: msb.simps [of "Suc 0"])
    ultimately show ?thesis by simp
  next
    case False
    then have "0 < n div 2" by simp
    with 1(1) False have ih: "2 ^ msb (n div 2) \<le> n div 2" "n div 2 < 2 ^ Suc (msb (n div 2))"
      by simp_all
    have m: "msb n = Suc (msb (n div 2))" using False by (simp add: msb.simps [of n])
    from ih show ?thesis unfolding m by (simp; linarith)
  qed
qed

lemma msb_unique:
  assumes "2 ^ k \<le> n" and "n < 2 ^ Suc k"
  shows "msb n = k"
proof -
  have pos: "0 < n" using assms(1) by (cases "n = 0") auto
  from msb_bounds [OF pos] have a: "2 ^ msb n \<le> n" and b: "n < 2 ^ Suc (msb n)" by simp_all
  have "(2::nat) ^ k < 2 ^ Suc (msb n)" using assms(1) b by linarith
  then have "k < Suc (msb n)" by (simp only: power_strict_increasing_iff [of "2::nat"] one_less_numeral_iff semiring_norm)
  moreover have "(2::nat) ^ msb n < 2 ^ Suc k" using a assms(2) by linarith
  then have "msb n < Suc k" by (simp only: power_strict_increasing_iff [of "2::nat"] one_less_numeral_iff semiring_norm)
  ultimately show ?thesis by simp
qed

lemma msb_power: "msb (2 ^ k) = k"
  by (rule msb_unique) simp_all

lemma msb_floor_log2:
  assumes "0 < n"
  shows "int (msb n) = \<lfloor>log 2 (real n)\<rfloor>"
proof -
  from msb_bounds [OF assms] have "2 ^ msb n \<le> n" "n < 2 ^ (msb n + 1)" by simp_all
  from floor_log_nat_eq_if [of 2 "msb n" n, OF this]
  have "\<lfloor>log (real 2) (real n)\<rfloor> = int (msb n)" by simp
  then show ?thesis by simp
qed

lemma keyToServer_bound:
  "keyToServer key n = Inr d \<Longrightarrow> d < 2 ^ msb n"
proof -
  assume a: "keyToServer key n = Inr d"
  then obtain b bs where k: "key = b # bs" by (cases key) (auto simp: keyToServer_def)
  from a k have m: "msb n \<le> 8" and d: "d = unat b div 2 ^ (8 - msb n)"
    by (auto simp: keyToServer_def drop_bit_eq_div split: if_splits)
  have "unat b < 2 ^ 8" using unsigned_less [of b] by simp
  also have "(2::nat) ^ 8 = 2 ^ msb n * 2 ^ (8 - msb n)" using m by (simp flip: power_add)
  finally have "unat b div 2 ^ (8 - msb n) < 2 ^ msb n"
    by (simp add: less_mult_imp_div_less)
  with d show ?thesis by simp
qed

lemma keyToServer_total:
  "key \<noteq> [] \<Longrightarrow> msb n \<le> 8 \<Longrightarrow> \<exists>d. keyToServer key n = Inr d"
  by (cases key) (auto simp: keyToServer_def)

lemma msb_le_8: "0 < n \<Longrightarrow> n < 512 \<Longrightarrow> msb n \<le> 8"
proof -
  assume "0 < n" "n < 512"
  with msb_bounds [of n] have "(2::nat) ^ msb n < 2 ^ 9" by simp
  then have "msb n < 9" by (simp only: power_strict_increasing_iff [of "2::nat"] one_less_numeral_iff semiring_norm)
  then show ?thesis by simp
qed

lemma keyToServer_Cons:
  "keyToServer (b # bs) n =
     (if 8 < msb n then Inl NegativeShift else Inr (drop_bit (8 - msb n) (unat b)))"
  by (simp add: keyToServer_def)

subsection \<open>Reading the input shard and dispatching\<close>

text \<open>
  \<^verbatim>\<open>inputFile.Read(b)\<close> on the input shard, a regular file: it fills \<open>b\<close> with the
  next bytes of the file, fewer than \<open>len(b)\<close> only when the file ends first, and
  reports \<^verbatim>\<open>io.EOF\<close> (here \<open>None\<close>) once nothing is left. The result is the bytes
  read and the rest of the file.
\<close>

definition file_Read :: "byte list \<Rightarrow> nat \<Rightarrow> (byte list \<times> byte list) option" where
  "file_Read f n = (if f = [] then None else Some (take n f, drop n f))"

text \<open>
  The state of the dispatch loop: the local result buffer and the map of outbound
  connections (line 172), each connection represented by the bytes written on it so far.
\<close>

record dispatch_state =
  ownRecords :: "Record list"
  connections :: "nat \<Rightarrow> byte list option"

text \<open>Lines 174-184: one outbound connection is dialled to every peer other than self.\<close>

definition dial_peers :: "nat \<Rightarrow> nat \<Rightarrow> nat \<Rightarrow> byte list option" where
  "dial_peers numServers serverID = (\<lambda>i. if i < numServers \<and> i \<noteq> serverID then Some [] else None)"

text \<open>
  Lines 204-224, the routing of one record: kept locally when the destination is this
  node; otherwise written as a data frame on the connection to the destination, which is
  dialled first when the map does not hold it (lines 211-217; looking up the address of
  a destination outside the topology is an index panic).
\<close>

definition dispatch_record :: "nat \<Rightarrow> nat \<Rightarrow> dispatch_state \<Rightarrow> Record \<Rightarrow> error + dispatch_state" where
  "dispatch_record numServers serverID st r =
     (case keyToServer (Key r) numServers of
        Inl e \<Rightarrow> Inl e
      | Inr dest \<Rightarrow>
          if dest = serverID then Inr (st\<lparr>ownRecords := ownRecords st @ [r]\<rparr>)
          else (case connections st dest of
                  None \<Rightarrow>
                    if dest < numServers
                    then Inr (st\<lparr>connections := (connections st)(dest \<mapsto> data_frame r)\<rparr>)
                    else Inl IndexOutOfRange
                | Some written \<Rightarrow>
                    Inr (st\<lparr>connections := (connections st)(dest \<mapsto> written @ data_frame r)\<rparr>)))"

lemma file_Read_Some:
  "file_Read f n = Some (b, f') \<Longrightarrow> f \<noteq> [] \<and> b = take n f \<and> f' = drop n f"
  by (auto simp: file_Read_def split: if_splits)

text \<open>
  Lines 187-225, the read loop: one read of up to 10 bytes into the zeroed key array, one
  read of up to 90 bytes into the zeroed value array, each ending the loop on
  \<^verbatim>\<open>io.EOF\<close>; the byte counts the reads return are discarded.
\<close>

function ingest :: "nat \<Rightarrow> nat \<Rightarrow> byte list \<Rightarrow> dispatch_state \<Rightarrow> error + dispatch_state" where
  "ingest numServers serverID inputFile st =
     (case file_Read inputFile 10 of
        None \<Rightarrow> Inr st
      | Some (kb, f1) \<Rightarrow>
          (case file_Read f1 90 of
             None \<Rightarrow> Inr st
           | Some (vb, f2) \<Rightarrow>
               (case dispatch_record numServers serverID st
                       \<lparr>Key = copy_into 10 kb, Value = copy_into 90 vb\<rparr> of
                  Inl e \<Rightarrow> Inl e
                | Inr st' \<Rightarrow> ingest numServers serverID f2 st')))"
  by pat_completeness auto
termination
proof (relation "measure (\<lambda>(n, s, f, st). length f)", goal_cases)
  case 1
  show ?case by simp
next
  case (2 numServers serverID inputFile st x kb f1 y vb f2 st')
  from 2(1,2) have a: "inputFile \<noteq> []" "f1 = drop 10 inputFile"
    using file_Read_Some [of inputFile 10 kb f1] by simp_all
  from 2(3,4) have b: "f2 = drop 90 f1"
    using file_Read_Some [of f1 90 vb f2] by simp
  from a b show ?case by (cases inputFile) simp_all
qed

declare ingest.simps [simp del]

text \<open>The records the read loop assembles from a shard, in order.\<close>

function shard_records :: "byte list \<Rightarrow> Record list" where
  "shard_records inputFile =
     (case file_Read inputFile 10 of
        None \<Rightarrow> []
      | Some (kb, f1) \<Rightarrow>
          (case file_Read f1 90 of
             None \<Rightarrow> []
           | Some (vb, f2) \<Rightarrow>
               \<lparr>Key = copy_into 10 kb, Value = copy_into 90 vb\<rparr> # shard_records f2))"
  by pat_completeness auto
termination
proof (relation "measure length", goal_cases)
  case 1
  show ?case by simp
next
  case (2 inputFile x kb f1 y vb f2)
  from 2(1,2) have a: "inputFile \<noteq> []" "f1 = drop 10 inputFile"
    using file_Read_Some [of inputFile 10 kb f1] by simp_all
  from 2(3,4) have b: "f2 = drop 90 f1"
    using file_Read_Some [of f1 90 vb f2] by simp
  from a b show ?case by (cases inputFile) simp_all
qed

declare shard_records.simps [simp del]

text \<open>
  Lines 227-237: the range loop over the connection map writes a terminator frame on
  every connection. Go visits each entry once, in an unspecified order; \<open>order\<close> is the
  order of one run.
\<close>

fun send_terminators :: "nat list \<Rightarrow> (nat \<Rightarrow> byte list option) \<Rightarrow> (nat \<Rightarrow> byte list option)" where
  "send_terminators [] conns = conns"
| "send_terminators (p # ps) conns =
     send_terminators ps
       (case conns p of None \<Rightarrow> conns | Some written \<Rightarrow> conns(p \<mapsto> written @ terminator_frame))"

text \<open>
  The sending half of \<^verbatim>\<open>main\<close> (lines 155-237). Indexing the topology with a
  \<^verbatim>\<open>serverID\<close> outside it panics at line 155.
\<close>

definition dispatch :: "nat \<Rightarrow> nat \<Rightarrow> byte list \<Rightarrow> nat list \<Rightarrow> error + dispatch_state" where
  "dispatch numServers serverID inputFile order =
     (if \<not> serverID < numServers then Inl IndexOutOfRange
      else case ingest numServers serverID inputFile
                  \<lparr>ownRecords = [], connections = dial_peers numServers serverID\<rparr> of
             Inl e \<Rightarrow> Inl e
           | Inr st \<Rightarrow> Inr (st\<lparr>connections := send_terminators order (connections st)\<rparr>))"

text \<open>The records of a list whose destination is node \<open>p\<close>, in their order.\<close>

definition routed_to :: "nat \<Rightarrow> nat \<Rightarrow> Record list \<Rightarrow> Record list" where
  "routed_to numServers p rs = filter (\<lambda>r. keyToServer (Key r) numServers = Inr p) rs"

lemma length_copy_into: "length (copy_into n src) = n"
  by (simp add: copy_into_def)

lemma wf_shard_records: "r \<in> set (shard_records f) \<Longrightarrow> wf_Record r"
proof (induction f rule: shard_records.induct)
  case (1 f)
  show ?case
  proof (cases "file_Read f 10")
    case None
    with 1(2) show ?thesis by (simp add: shard_records.simps [of f])
  next
    case (Some a)
    obtain kb f1 where a: "a = (kb, f1)" by (cases a)
    show ?thesis
    proof (cases "file_Read f1 90")
      case None
      with 1(2) Some a show ?thesis by (simp add: shard_records.simps [of f])
    next
      case inner: (Some b)
      obtain vb f2 where b: "b = (vb, f2)" by (cases b)
      from 1(2) Some a inner b
      have "r = \<lparr>Key = copy_into 10 kb, Value = copy_into 90 vb\<rparr> \<or> r \<in> set (shard_records f2)"
        by (simp add: shard_records.simps [of f])
      then show ?thesis
      proof
        assume "r = \<lparr>Key = copy_into 10 kb, Value = copy_into 90 vb\<rparr>"
        then show ?thesis by (simp add: wf_Record_def length_copy_into)
      next
        assume "r \<in> set (shard_records f2)"
        with 1(1) Some a inner b show ?thesis by simp
      qed
    qed
  qed
qed

lemma dispatch_record_spec:
  assumes dom: "\<forall>p. (connections st p \<noteq> None) = (p < n \<and> p \<noteq> sid)"
    and run: "dispatch_record n sid st r = Inr st'"
  shows "(\<forall>p. (connections st' p \<noteq> None) = (p < n \<and> p \<noteq> sid))
       \<and> ownRecords st' = ownRecords st @ routed_to n sid [r]
       \<and> (\<forall>p. connections st' p =
             map_option (\<lambda>w. w @ concat (map data_frame (routed_to n p [r]))) (connections st p))"
proof -
  from run obtain dest where d: "keyToServer (Key r) n = Inr dest"
    by (cases "keyToServer (Key r) n") (auto simp: dispatch_record_def)
  show ?thesis
  proof (cases "dest = sid")
    case True
    with run d have st': "st' = st\<lparr>ownRecords := ownRecords st @ [r]\<rparr>"
      by (simp add: dispatch_record_def)
    have "connections st p =
        map_option (\<lambda>w. w @ concat (map data_frame (routed_to n p [r]))) (connections st p)" for p
    proof (cases "connections st p")
      case None
      then show ?thesis by simp
    next
      case (Some w)
      with dom have "p \<noteq> sid" by (metis option.distinct(1))
      with True d Some show ?thesis by (simp add: routed_to_def)
    qed
    with dom st' True d show ?thesis by (simp add: routed_to_def)
  next
    case False
    show ?thesis
    proof (cases "connections st dest")
      case None
      moreover from dom have "(connections st dest \<noteq> None) = (dest < n \<and> dest \<noteq> sid)" ..
      ultimately have "\<not> dest < n" using False by simp
      with run d False None show ?thesis by (simp add: dispatch_record_def)
    next
      case (Some w)
      with run d False
      have st': "st' = st\<lparr>connections := (connections st)(dest \<mapsto> w @ data_frame r)\<rparr>"
        by (simp add: dispatch_record_def)
      have dn: "dest < n" using dom Some by (metis option.distinct(1))
      have c: "connections st' p =
        map_option (\<lambda>w. w @ concat (map data_frame (routed_to n p [r]))) (connections st p)" for p
      proof (cases "p = dest")
        case True
        with st' Some d show ?thesis by (simp add: routed_to_def)
      next
        case neq: False
        then have "keyToServer (Key r) n \<noteq> Inr p" using d by simp
        then have "routed_to n p [r] = []" by (simp add: routed_to_def)
        with st' neq show ?thesis by (simp add: option.map_ident)
      qed
      have o: "ownRecords st' = ownRecords st @ routed_to n sid [r]"
        using st' d False by (simp add: routed_to_def)
      have dm: "(connections st' p \<noteq> None) = (p < n \<and> p \<noteq> sid)" for p
        using st' dom dn False by (cases "p = dest") simp_all
      from c o dm show ?thesis by blast
    qed
  qed
qed

lemma routed_to_Cons:
  "routed_to n p (r # rs) = routed_to n p [r] @ routed_to n p rs"
  by (simp add: routed_to_def)

lemma ingest_spec:
  assumes "\<forall>p. (connections st p \<noteq> None) = (p < n \<and> p \<noteq> sid)"
    and "ingest n sid f st = Inr st'"
  shows "(\<forall>p. (connections st' p \<noteq> None) = (p < n \<and> p \<noteq> sid))
       \<and> ownRecords st' = ownRecords st @ routed_to n sid (shard_records f)
       \<and> (\<forall>p. connections st' p =
             map_option (\<lambda>w. w @ concat (map data_frame (routed_to n p (shard_records f))))
               (connections st p))"
  using assms
proof (induction n sid f st rule: ingest.induct)
  case (1 n sid f st)
  note dom = 1(2) and run = 1(3)
  have nil: ?case if "shard_records f = []" "st' = st"
    using that dom by (simp add: routed_to_def option.map_ident)
  show ?case
  proof (cases "file_Read f 10")
    case None
    then have "shard_records f = []" "st' = st"
      using run by (simp_all add: shard_records.simps [of f] ingest.simps [of n sid f st])
    then show ?thesis by (rule nil)
  next
    case (Some a)
    obtain kb f1 where a: "a = (kb, f1)" by (cases a)
    show ?thesis
    proof (cases "file_Read f1 90")
      case None
      then have "shard_records f = []" "st' = st"
        using run Some a by (simp_all add: shard_records.simps [of f] ingest.simps [of n sid f st])
      then show ?thesis by (rule nil)
    next
      case inner: (Some b)
      obtain vb f2 where b: "b = (vb, f2)" by (cases b)
      define r where "r = \<lparr>Key = copy_into 10 kb, Value = copy_into 90 vb\<rparr>"
      have sr: "shard_records f = r # shard_records f2"
        using Some a inner b by (simp add: shard_records.simps [of f] r_def)
      from run Some a inner b obtain st1 where
        s1: "dispatch_record n sid st r = Inr st1" and s2: "ingest n sid f2 st1 = Inr st'"
        by (cases "dispatch_record n sid st r") (auto simp: ingest.simps [of n sid f st] r_def)
      note A = dispatch_record_spec [OF dom s1]
      from A have dom1: "\<forall>p. (connections st1 p \<noteq> None) = (p < n \<and> p \<noteq> sid)" by blast
      have B: "(\<forall>p. (connections st' p \<noteq> None) = (p < n \<and> p \<noteq> sid))
       \<and> ownRecords st' = ownRecords st1 @ routed_to n sid (shard_records f2)
       \<and> (\<forall>p. connections st' p =
             map_option (\<lambda>w. w @ concat (map data_frame (routed_to n p (shard_records f2))))
               (connections st1 p))"
        using 1(1) [OF Some a [symmetric] inner b [symmetric] s1 [unfolded r_def] dom1 s2] .
      have own: "ownRecords st' = ownRecords st @ routed_to n sid (shard_records f)"
      proof -
        from A have "ownRecords st1 = ownRecords st @ routed_to n sid [r]" by blast
        moreover from B have "ownRecords st' = ownRecords st1 @ routed_to n sid (shard_records f2)"
          by blast
        ultimately show ?thesis
          by (simp add: sr routed_to_Cons [of n sid r "shard_records f2"])
      qed
      have con: "connections st' p =
             map_option (\<lambda>w. w @ concat (map data_frame (routed_to n p (shard_records f))))
               (connections st p)" for p
      proof -
        from A have "connections st1 p =
             map_option (\<lambda>w. w @ concat (map data_frame (routed_to n p [r]))) (connections st p)"
          by blast
        moreover from B have "connections st' p =
             map_option (\<lambda>w. w @ concat (map data_frame (routed_to n p (shard_records f2))))
               (connections st1 p)" by blast
        ultimately show ?thesis
          by (cases "connections st p") (simp_all add: sr routed_to_Cons [of n p r "shard_records f2"])
      qed
      from B own con show ?thesis by blast
    qed
  qed
qed

lemma keyToServer_in_range:
  assumes "0 < n" and "n < 512" and "key \<noteq> []"
  shows "\<exists>d. keyToServer key n = Inr d \<and> d < n"
proof -
  from keyToServer_total [OF assms(3) msb_le_8 [OF assms(1,2)]]
  obtain d where d: "keyToServer key n = Inr d" ..
  from keyToServer_bound [OF d] msb_bounds [OF assms(1)] have "d < n" by simp
  with d show ?thesis by blast
qed

lemma dispatch_record_total:
  assumes "0 < n" and "n < 512"
    and dom: "\<forall>p. (connections st p \<noteq> None) = (p < n \<and> p \<noteq> sid)"
    and key: "Key r \<noteq> []"
  shows "\<exists>st'. dispatch_record n sid st r = Inr st'"
proof -
  from keyToServer_in_range [OF assms(1,2) key]
  obtain d where d: "keyToServer (Key r) n = Inr d" and dn: "d < n" by blast
  show ?thesis
  proof (cases "d = sid")
    case True
    with d show ?thesis by (simp add: dispatch_record_def)
  next
    case False
    from dom have "(connections st d \<noteq> None) = (d < n \<and> d \<noteq> sid)" ..
    with dn False obtain w where "connections st d = Some w" by auto
    with d False show ?thesis by (simp add: dispatch_record_def)
  qed
qed

lemma ingest_total:
  assumes "0 < n" and "n < 512"
    and "\<forall>p. (connections st p \<noteq> None) = (p < n \<and> p \<noteq> sid)"
  shows "\<exists>st'. ingest n sid f st = Inr st'"
  using assms
proof (induction n sid f st rule: ingest.induct)
  case (1 n sid f st)
  note pos = 1(2) and small = 1(3) and dom = 1(4)
  show ?case
  proof (cases "file_Read f 10")
    case None
    then show ?thesis by (simp add: ingest.simps [of n sid f st])
  next
    case (Some a)
    obtain kb f1 where a: "a = (kb, f1)" by (cases a)
    show ?thesis
    proof (cases "file_Read f1 90")
      case None
      with Some a show ?thesis by (simp add: ingest.simps [of n sid f st])
    next
      case inner: (Some b)
      obtain vb f2 where b: "b = (vb, f2)" by (cases b)
      define r where "r = \<lparr>Key = copy_into 10 kb, Value = copy_into 90 vb\<rparr>"
      have "length (Key r) = 10" by (simp add: r_def length_copy_into)
      then have key: "Key r \<noteq> []" by auto
      from dispatch_record_total [OF pos small dom key]
      obtain st1 where s1: "dispatch_record n sid st r = Inr st1" ..
      from dispatch_record_spec [OF dom s1]
      have dom1: "\<forall>p. (connections st1 p \<noteq> None) = (p < n \<and> p \<noteq> sid)" by blast
      have "\<exists>st'. ingest n sid f2 st1 = Inr st'"
        using 1(1) [OF Some a [symmetric] inner b [symmetric] s1 [unfolded r_def] pos small dom1] .
      then show ?thesis
        using Some a inner b s1 by (simp add: ingest.simps [of n sid f st] r_def)
    qed
  qed
qed

lemma send_terminators_spec:
  "distinct order \<Longrightarrow>
   send_terminators order conns p =
     (if p \<in> set order then map_option (\<lambda>w. w @ terminator_frame) (conns p) else conns p)"
proof (induction order arbitrary: conns)
  case Nil
  show ?case by simp
next
  case (Cons q qs)
  then have IH: "send_terminators qs c p =
     (if p \<in> set qs then map_option (\<lambda>w. w @ terminator_frame) (c p) else c p)" for c
    by simp
  from Cons.prems have nq: "q \<notin> set qs" by simp
  show ?case
  proof (cases "conns q")
    case None
    with IH [of conns] nq show ?thesis by auto
  next
    case (Some w)
    with IH [of "conns(q \<mapsto> w @ terminator_frame)"] nq show ?thesis by auto
  qed
qed

lemma dispatch_total:
  assumes "sid < n" and "n < 512"
  shows "\<exists>st. dispatch n sid f order = Inr st"
proof -
  have "\<forall>p. (connections \<lparr>ownRecords = [], connections = dial_peers n sid\<rparr> p \<noteq> None)
            = (p < n \<and> p \<noteq> sid)"
    by (simp add: dial_peers_def)
  moreover have "0 < n" using assms(1) by simp
  ultimately obtain st1 where
    "ingest n sid f \<lparr>ownRecords = [], connections = dial_peers n sid\<rparr> = Inr st1"
    using ingest_total [OF _ assms(2)] by blast
  then show ?thesis using assms(1) by (simp add: dispatch_def)
qed

lemma shard_records_Nil: "shard_records [] = []"
  by (simp add: shard_records.simps [of "[]"] file_Read_def)

lemma shard_records_full:
  assumes "length chunk = 100"
  shows "shard_records (chunk @ rest) =
           \<lparr>Key = take 10 chunk, Value = drop 10 chunk\<rparr> # shard_records rest"
proof -
  have ne: "chunk \<noteq> []" using assms by auto
  have a: "file_Read (chunk @ rest) 10 = Some (take 10 chunk, drop 10 chunk @ rest)"
    using assms ne by (simp add: file_Read_def)
  have ne2: "drop 10 chunk @ rest \<noteq> []" using assms by auto
  have b: "file_Read (drop 10 chunk @ rest) 90 = Some (drop 10 chunk, rest)"
    using assms ne2 by (simp add: file_Read_def)
  show ?thesis
    using a b assms by (simp add: shard_records.simps [of "chunk @ rest"] copy_into_def)
qed

lemma keyToServer_hd:
  "key \<noteq> [] \<Longrightarrow> keyToServer key n =
     (if 8 < msb n then Inl NegativeShift else Inr (drop_bit (8 - msb n) (unat (hd key))))"
  by (cases key) (simp_all add: keyToServer_Cons)

lemma dispatch_own:
  assumes "dispatch n sid f order = Inr st"
  shows "ownRecords st = routed_to n sid (shard_records f)"
proof -
  let ?st0 = "\<lparr>ownRecords = [], connections = dial_peers n sid\<rparr>"
  from assms have sid: "sid < n"
    by (auto simp: dispatch_def split: if_splits)
  from assms sid obtain st1 where run: "ingest n sid f ?st0 = Inr st1"
    and st: "st = st1\<lparr>connections := send_terminators order (connections st1)\<rparr>"
    by (cases "ingest n sid f ?st0") (auto simp: dispatch_def)
  have dom0: "\<forall>p. (connections ?st0 p \<noteq> None) = (p < n \<and> p \<noteq> sid)"
    by (simp add: dial_peers_def)
  from ingest_spec [OF dom0 run] have "ownRecords st1 = ownRecords ?st0 @ routed_to n sid (shard_records f)"
    by blast
  with st show ?thesis by simp
qed

text \<open>On a shard made of whole records the read loop returns those records.\<close>

lemma shard_records_whole:
  "\<forall>r \<in> set rs. wf_Record r \<Longrightarrow> shard_records (concat (map (\<lambda>r. Key r @ Value r) rs)) = rs"
proof (induction rs)
  case Nil
  show ?case by (simp add: shard_records_Nil)
next
  case (Cons r rs)
  then have wf: "length (Key r) = 10" "length (Value r) = 90" by (simp_all add: wf_Record_def)
  then have "shard_records ((Key r @ Value r) @ concat (map (\<lambda>r. Key r @ Value r) rs)) =
      \<lparr>Key = take 10 (Key r @ Value r), Value = drop 10 (Key r @ Value r)\<rparr> #
      shard_records (concat (map (\<lambda>r. Key r @ Value r) rs))"
    by (intro shard_records_full) simp
  with Cons wf show ?case by simp
qed

lemma shard_records_short:
  assumes "10 < length f" and "length f < 100"
  shows "shard_records f =
           [\<lparr>Key = take 10 f, Value = drop 10 f @ replicate (100 - length f) 0\<rparr>]"
proof -
  have ne: "f \<noteq> []" using assms by auto
  have a: "file_Read f 10 = Some (take 10 f, drop 10 f)" using ne by (simp add: file_Read_def)
  have ne2: "drop 10 f \<noteq> []" using assms by simp
  have b: "file_Read (drop 10 f) 90 = Some (drop 10 f, [])"
    using ne2 assms by (simp add: file_Read_def)
  show ?thesis
    using a b assms by (simp add: shard_records.simps [of f] copy_into_def shard_records_Nil)
qed

lemma terminators_sent_general:
  assumes "dispatch n sid f order = Inr st"
    and "distinct order" and "set order = {p. p < n \<and> p \<noteq> sid}"
  shows "connections st p =
           (if p < n \<and> p \<noteq> sid
            then Some (concat (map data_frame (routed_to n p (shard_records f))) @ terminator_frame)
            else None)"
proof -
  let ?st0 = "\<lparr>ownRecords = [], connections = dial_peers n sid\<rparr>"
  from assms(1) have sid: "sid < n"
    by (auto simp: dispatch_def split: if_splits)
  from assms(1) sid obtain st1 where run: "ingest n sid f ?st0 = Inr st1"
    and st: "st = st1\<lparr>connections := send_terminators order (connections st1)\<rparr>"
    by (cases "ingest n sid f ?st0") (auto simp: dispatch_def)
  have dom0: "\<forall>p. (connections ?st0 p \<noteq> None) = (p < n \<and> p \<noteq> sid)"
    by (simp add: dial_peers_def)
  from ingest_spec [OF dom0 run] have c1: "connections st1 p =
      map_option (\<lambda>w. w @ concat (map data_frame (routed_to n p (shard_records f))))
        (connections ?st0 p)" by blast
  have c: "connections st p =
      (if p \<in> set order then map_option (\<lambda>w. w @ terminator_frame) (connections st1 p)
       else connections st1 p)"
    unfolding st using send_terminators_spec [OF assms(2)] by simp
  show ?thesis using c c1 assms(3) by (simp add: dial_peers_def)
qed

subsection \<open>Merge and emit\<close>

text \<open>
  \<^verbatim>\<open>bytes.Compare(a, b)\<close> of the Go library: -1, 0 or 1 as \<open>a\<close> is
  lexicographically below, equal to or above \<open>b\<close>, bytes compared as unsigned numbers
  (the order of \<open>8 word\<close>), a proper prefix below its extensions.
\<close>

fun bytes_Compare :: "byte list \<Rightarrow> byte list \<Rightarrow> int" where
  "bytes_Compare [] [] = 0"
| "bytes_Compare [] (y # ys) = - 1"
| "bytes_Compare (x # xs) [] = 1"
| "bytes_Compare (x # xs) (y # ys) =
     (if x < y then - 1 else if y < x then 1 else bytes_Compare xs ys)"

text \<open>The comparison passed to \<^verbatim>\<open>sort.Slice\<close> (lines 246-248).\<close>

definition less_records :: "Record \<Rightarrow> Record \<Rightarrow> bool" where
  "less_records r s = (bytes_Compare (Key r) (Key s) \<le> 0)"

text \<open>
  \<^verbatim>\<open>sort.Slice\<close> belongs to the Go library, not to the program. It is modelled by the
  library's insertion sort, the routine \<^verbatim>\<open>sort.Slice\<close> runs on slices of at most 12
  elements: each element in turn moves left while the comparison places it before its
  left neighbour. \<open>insert_left\<close> works on the sorted prefix in reverse (nearest
  neighbour first).
\<close>

fun insert_left :: "('a \<Rightarrow> 'a \<Rightarrow> bool) \<Rightarrow> 'a \<Rightarrow> 'a list \<Rightarrow> 'a list" where
  "insert_left lessf x [] = [x]"
| "insert_left lessf x (y # ys) = (if lessf x y then y # insert_left lessf x ys else x # y # ys)"

definition sort_Slice :: "('a \<Rightarrow> 'a \<Rightarrow> bool) \<Rightarrow> 'a list \<Rightarrow> 'a list" where
  "sort_Slice lessf data = rev (foldl (\<lambda>prefix x. insert_left lessf x prefix) [] data)"

text \<open>
  Lines 241-258 once \<^verbatim>\<open>waitGroup.Wait()\<close> has returned: the local buffer and the
  received buffer are appended, sorted, and each record is written as its key followed
  by its value. The result is the content of the output file.
\<close>

definition merge_records :: "Record list \<Rightarrow> Record list \<Rightarrow> Record list" where
  "merge_records own received = sort_Slice less_records (([] @ own) @ received)"

definition emit :: "Record list \<Rightarrow> byte list" where
  "emit records = concat (map (\<lambda>rec. Key rec @ Value rec) records)"

definition merge_emit :: "Record list \<Rightarrow> Record list \<Rightarrow> byte list" where
  "merge_emit own received = emit (merge_records own received)"










subsection \<open>The node as concurrent tasks\<close>

text \<open>
  The receiving side of a node is several goroutines: the accept loop
  (\<^verbatim>\<open>acceptConnections\<close>), one reader per accepted connection
  (\<^verbatim>\<open>receiveData\<close>), the collector (\<^verbatim>\<open>collectReceivedData\<close>) and
  \<^verbatim>\<open>main\<close>. They are modelled as an interleaving: a schedule names the goroutine
  that takes the next step, and a goroutine that is blocked leaves the state unchanged.

  A reader is at the head of its loop (\<open>Reading\<close>), blocked in the send of a decoded
  record on its unbuffered channel (\<open>Sending\<close>), or has returned and closed the
  channel (\<open>Closed\<close>). The fields \<open>orig\<close> (the connection as it was accepted) and
  \<open>rsent\<close> (the records handed over on the channel so far) record history only; no
  step reads them.
\<close>

datatype reader_pc = Reading | Sending Record | Closed

record reader =
  orig :: conn
  rconn :: conn
  rpc :: reader_pc
  rsent :: "Record list"

text \<open>
  The collector has not been started, is draining channel \<open>i\<close> (the loop variable of
  line 131), or has called \<^verbatim>\<open>waitGroup.Done()\<close>.
\<close>

datatype collector_pc = NotStarted | Draining nat | Finished

text \<open>
  \<^verbatim>\<open>main\<close> is in its sending half, waits at \<^verbatim>\<open>waitGroup.Wait()\<close> with its
  local buffer, has merged and written the output, or the process has exited on a fatal
  error.
\<close>

datatype main_pc = Dispatching | AtBarrier "Record list" | Merged "byte list" | Exited error

text \<open>
  The state: the connections peers have opened that are not yet accepted
  (\<open>backlog\<close>), the accepted connections with their channels and readers (entry
  \<open>i\<close> of \<open>readers\<close> stands for \<^verbatim>\<open>clientConnections[i]\<close>,
  \<^verbatim>\<open>nodeChannels[i]\<close> and the goroutine reading it), the collector, the global
  \<^verbatim>\<open>receivedRecords\<close>, the counter of \<^verbatim>\<open>waitGroup\<close>, and \<^verbatim>\<open>main\<close>.
\<close>

record node =
  backlog :: "conn list"
  readers :: "reader list"
  collector :: collector_pc
  receivedRecords :: "Record list"
  waitGroup :: nat
  mainpc :: main_pc

text \<open>What is fixed for a run: the arguments of the sending half.\<close>

record config =
  cfg_numServers :: nat
  cfg_serverID :: nat
  cfg_inputFile :: "byte list"
  cfg_order :: "nat list"

datatype goroutine = Acceptor | Reader nat | Collector | Main

text \<open>
  Lines 83-98. Once \<^verbatim>\<open>len(clientConnections) == numServers-1\<close> the accept loop
  starts the collector and returns; until then it accepts the next connection and
  starts a reader on it.
\<close>

definition acceptor_step :: "nat \<Rightarrow> node \<Rightarrow> node" where
  "acceptor_step n s =
     (if collector s \<noteq> NotStarted then s
      else if int (length (readers s)) = int n - 1 then s\<lparr>collector := Draining 0\<rparr>
      else (case backlog s of
              [] \<Rightarrow> s
            | c # cs \<Rightarrow>
                s\<lparr>backlog := cs,
                  readers := readers s @ [\<lparr>orig = c, rconn = c, rpc = Reading, rsent = []\<rparr>]\<rparr>))"

text \<open>
  Lines 102-126, one iteration of a reader up to its send or return: a whole frame is
  read; a terminator closes the channel, anything else is decoded and offered on the
  channel. A read error exits the process.
\<close>

definition reader_step :: "nat \<Rightarrow> node \<Rightarrow> node" where
  "reader_step i s =
     (if \<not> i < length (readers s) then s
      else let r = readers s ! i in
        (case rpc r of
           Reading \<Rightarrow>
             (case read_frame (rconn r) 0 [] of
                Inl e \<Rightarrow> s\<lparr>mainpc := Exited e\<rparr>
              | Inr (data, c') \<Rightarrow>
                  s\<lparr>readers := (readers s)
                      [i := r\<lparr>rconn := c',
                              rpc := (if data ! 0 = 1 then Closed else Sending (decode_record data))\<rparr>]\<rparr>)
         | Sending rec \<Rightarrow> s
         | Closed \<Rightarrow> s))"

text \<open>
  Lines 130-137. Draining channel \<open>i\<close>, the collector takes the record its reader
  offers and appends it to \<^verbatim>\<open>receivedRecords\<close>, moves to the next channel when this
  one is closed, and waits otherwise; past the last channel it calls
  \<^verbatim>\<open>waitGroup.Done()\<close>.
\<close>

definition collector_step :: "node \<Rightarrow> node" where
  "collector_step s =
     (case collector s of
        NotStarted \<Rightarrow> s
      | Finished \<Rightarrow> s
      | Draining i \<Rightarrow>
          if i < length (readers s)
          then let r = readers s ! i in
            (case rpc r of
               Reading \<Rightarrow> s
             | Sending rec \<Rightarrow>
                 s\<lparr>receivedRecords := receivedRecords s @ [rec],
                   readers := (readers s)[i := r\<lparr>rpc := Reading, rsent := rsent r @ [rec]\<rparr>]\<rparr>
             | Closed \<Rightarrow> s\<lparr>collector := Draining (i + 1)\<rparr>)
          else s\<lparr>collector := Finished, waitGroup := waitGroup s - 1\<rparr>)"

text \<open>
  \<^verbatim>\<open>main\<close>: the sending half (lines 155-242) as one step, then
  \<^verbatim>\<open>waitGroup.Wait()\<close> (line 243), which returns only when the counter is zero, then
  merge and emit (lines 244-258).
\<close>

definition main_step :: "config \<Rightarrow> node \<Rightarrow> node" where
  "main_step cfg s =
     (case mainpc s of
        Dispatching \<Rightarrow>
          (case dispatch (cfg_numServers cfg) (cfg_serverID cfg) (cfg_inputFile cfg) (cfg_order cfg) of
             Inl e \<Rightarrow> s\<lparr>mainpc := Exited e\<rparr>
           | Inr st \<Rightarrow> s\<lparr>mainpc := AtBarrier (ownRecords st)\<rparr>)
      | AtBarrier own \<Rightarrow>
          if waitGroup s = 0 then s\<lparr>mainpc := Merged (merge_emit own (receivedRecords s))\<rparr> else s
      | Merged out \<Rightarrow> s
      | Exited e \<Rightarrow> s)"

text \<open>Nothing runs once \<^verbatim>\<open>main\<close> has returned or the process has exited.\<close>

definition process_over :: "node \<Rightarrow> bool" where
  "process_over s = (case mainpc s of Merged out \<Rightarrow> True | Exited e \<Rightarrow> True | _ \<Rightarrow> False)"

definition step :: "config \<Rightarrow> goroutine \<Rightarrow> node \<Rightarrow> node" where
  "step cfg g s =
     (if process_over s then s
      else case g of
             Acceptor \<Rightarrow> acceptor_step (cfg_numServers cfg) s
           | Reader i \<Rightarrow> reader_step i s
           | Collector \<Rightarrow> collector_step s
           | Main \<Rightarrow> main_step cfg s)"

fun run :: "config \<Rightarrow> goroutine list \<Rightarrow> node \<Rightarrow> node" where
  "run cfg [] s = s"
| "run cfg (g # gs) s = run cfg gs (step cfg g s)"

text \<open>
  The state when \<^verbatim>\<open>go acceptConnections(listener)\<close> is reached (line 164):
  \<^verbatim>\<open>waitGroup.Add(1)\<close> has run, nothing is accepted yet. \<open>inbound\<close> is the
  sequence of connections the peers open to this node.
\<close>

definition init_node :: "conn list \<Rightarrow> node" where
  "init_node inbound =
     \<lparr>backlog = inbound, readers = [], collector = NotStarted, receivedRecords = [],
      waitGroup = 1, mainpc = Dispatching\<rparr>"

subsection \<open>Invariant of the concurrent node\<close>

text \<open>
  A reader's state against the sequential reader run on the connection as accepted:
  what remains to be done from the current state is what \<open>receiveData\<close> does from
  the start.
\<close>

definition reader_ok :: "reader \<Rightarrow> bool" where
  "reader_ok r =
     (receiveData (orig r) [] =
        (case rpc r of
           Reading \<Rightarrow> receiveData (rconn r) (rsent r)
         | Sending rec \<Rightarrow> receiveData (rconn r) (rsent r @ [rec])
         | Closed \<Rightarrow> Inr (rsent r, rconn r)))"

definition collector_ok :: "node \<Rightarrow> bool" where
  "collector_ok s =
     (case collector s of
        NotStarted \<Rightarrow> (\<forall>r \<in> set (readers s). rsent r = [])
      | Draining i \<Rightarrow>
          i \<le> length (readers s)
          \<and> (\<forall>j < length (readers s).
                (j < i \<longrightarrow> rpc (readers s ! j) = Closed) \<and> (i < j \<longrightarrow> rsent (readers s ! j) = []))
      | Finished \<Rightarrow> (\<forall>r \<in> set (readers s). rpc r = Closed))"

definition main_ok :: "config \<Rightarrow> node \<Rightarrow> bool" where
  "main_ok cfg s =
     (case mainpc s of
        Dispatching \<Rightarrow> True
      | AtBarrier own \<Rightarrow>
          (\<exists>st. dispatch (cfg_numServers cfg) (cfg_serverID cfg) (cfg_inputFile cfg) (cfg_order cfg) = Inr st
                \<and> own = ownRecords st)
      | Merged out \<Rightarrow>
          collector s = Finished
          \<and> (\<exists>st. dispatch (cfg_numServers cfg) (cfg_serverID cfg) (cfg_inputFile cfg) (cfg_order cfg) = Inr st
                \<and> out = merge_emit (ownRecords st) (receivedRecords s))
      | Exited e \<Rightarrow> True)"

definition node_inv :: "config \<Rightarrow> conn list \<Rightarrow> node \<Rightarrow> bool" where
  "node_inv cfg inbound s =
     (map orig (readers s) @ backlog s = inbound
      \<and> (collector s \<noteq> NotStarted \<longrightarrow> int (length (readers s)) = int (cfg_numServers cfg) - 1)
      \<and> waitGroup s = (if collector s = Finished then 0 else 1)
      \<and> receivedRecords s = concat (map rsent (readers s))
      \<and> (\<forall>r \<in> set (readers s). reader_ok r)
      \<and> collector_ok s
      \<and> main_ok cfg s)"

lemma node_inv_init: "node_inv cfg inbound (init_node inbound)"
  by (simp add: node_inv_def init_node_def collector_ok_def main_ok_def)

lemma node_inv_acceptor:
  assumes "node_inv cfg inbound s"
  shows "node_inv cfg inbound (acceptor_step (cfg_numServers cfg) s)"
proof (cases "collector s = NotStarted")
  case False
  with assms show ?thesis by (simp add: acceptor_step_def)
next
  case ns: True
  show ?thesis
  proof (cases "int (length (readers s)) = int (cfg_numServers cfg) - 1")
    case True
    have st: "acceptor_step (cfg_numServers cfg) s = s\<lparr>collector := Draining 0\<rparr>"
      using ns True by (simp add: acceptor_step_def)
    from assms ns have "\<forall>r \<in> set (readers s). rsent r = []"
      by (simp add: node_inv_def collector_ok_def)
    then have "collector_ok (s\<lparr>collector := Draining 0\<rparr>)"
      by (simp add: collector_ok_def)
    moreover have "main_ok cfg (s\<lparr>collector := Draining 0\<rparr>)"
      using assms ns by (auto simp: node_inv_def main_ok_def split: main_pc.splits)
    ultimately show ?thesis
      unfolding st using assms ns True by (simp add: node_inv_def)
  next
    case False
    show ?thesis
    proof (cases "backlog s")
      case Nil
      with ns False assms show ?thesis by (simp add: acceptor_step_def)
    next
      case (Cons c cs)
      let ?r = "\<lparr>orig = c, rconn = c, rpc = Reading, rsent = []\<rparr>"
      let ?s' = "s\<lparr>backlog := cs, readers := readers s @ [?r]\<rparr>"
      have st: "acceptor_step (cfg_numServers cfg) s = ?s'"
        using ns False Cons by (simp add: acceptor_step_def)
      have "reader_ok ?r" by (simp add: reader_ok_def)
      moreover from assms ns have "collector_ok ?s'"
        by (simp add: node_inv_def collector_ok_def)
      moreover have "main_ok cfg ?s'"
        using assms ns by (auto simp: node_inv_def main_ok_def split: main_pc.splits)
      ultimately show ?thesis
        unfolding st using assms ns Cons by (simp add: node_inv_def)
    qed
  qed
qed

lemma map_update_same:
  "i < length xs \<Longrightarrow> f y = f (xs ! i) \<Longrightarrow> map f (xs[i := y]) = map f xs"
  by (simp add: map_update list_update_same_conv)

lemma collector_ok_cong:
  "collector s' = collector s \<Longrightarrow> readers s' = readers s \<Longrightarrow> collector_ok s' = collector_ok s"
  by (cases "collector s") (simp_all add: collector_ok_def)

lemma node_inv_reader:
  assumes "node_inv cfg inbound s"
  shows "node_inv cfg inbound (reader_step i s)"
proof (cases "i < length (readers s) \<and> rpc (readers s ! i) = Reading")
  case False
  then have "reader_step i s = s"
    by (auto simp: reader_step_def Let_def split: reader_pc.splits)
  with assms show ?thesis by simp
next
  case True
  then have i: "i < length (readers s)" and rd: "rpc (readers s ! i) = Reading" by simp_all
  let ?r = "readers s ! i"
  from assms have ok: "reader_ok ?r" using i by (simp add: node_inv_def)
  show ?thesis
  proof (cases "read_frame (rconn ?r) 0 []")
    case (Inl e)
    then have st: "reader_step i s = s\<lparr>mainpc := Exited e\<rparr>"
      using i rd by (simp add: reader_step_def Let_def)
    have "collector_ok (s\<lparr>mainpc := Exited e\<rparr>)"
      using assms by (simp add: node_inv_def collector_ok_cong [of "s\<lparr>mainpc := Exited e\<rparr>" s])
    then show ?thesis
      unfolding st using assms by (simp add: node_inv_def main_ok_def)
  next
    case (Inr p)
    obtain data c' where p: "p = (data, c')" by (cases p)
    let ?r' = "?r\<lparr>rconn := c', rpc := (if data ! 0 = 1 then Closed else Sending (decode_record data))\<rparr>"
    let ?s' = "s\<lparr>readers := (readers s)[i := ?r']\<rparr>"
    have st: "reader_step i s = ?s'"
      using i rd Inr p by (simp add: reader_step_def Let_def)
    have unfold: "receiveData (rconn ?r) (rsent ?r) =
        (if data ! 0 = 1 then Inr (rsent ?r, c')
         else receiveData c' (rsent ?r @ [decode_record data]))"
      using Inr p by (simp add: receiveData.simps [of "rconn ?r"])
    have ok': "reader_ok ?r'"
      using ok rd unfold by (simp add: reader_ok_def)
    have rds: "\<forall>r \<in> set ((readers s)[i := ?r']). reader_ok r"
    proof
      fix r assume "r \<in> set ((readers s)[i := ?r'])"
      then have "r = ?r' \<or> r \<in> set (readers s)"
        using set_update_subset_insert [of "readers s" i ?r'] by auto
      then show "reader_ok r" using ok' assms by (auto simp: node_inv_def)
    qed
    have mo: "map orig ((readers s)[i := ?r']) = map orig (readers s)"
      by (rule map_update_same [OF i]) simp
    have ms: "map rsent ((readers s)[i := ?r']) = map rsent (readers s)"
      by (rule map_update_same [OF i]) simp
    from assms have co: "collector_ok s" by (simp add: node_inv_def)
    have co': "collector_ok ?s'"
    proof (cases "collector s")
      case NotStarted
      with co have "\<forall>x \<in> set (map rsent (readers s)). x = []" by (simp add: collector_ok_def)
      then have "\<forall>x \<in> set (map rsent ((readers s)[i := ?r'])). x = []" unfolding ms .
      then show ?thesis using NotStarted by (simp add: collector_ok_def)
    next
      case (Draining k)
      with co have k: "k \<le> length (readers s)"
        and lo: "\<And>j. j < length (readers s) \<Longrightarrow> j < k \<Longrightarrow> rpc (readers s ! j) = Closed"
        and hi: "\<And>j. j < length (readers s) \<Longrightarrow> k < j \<Longrightarrow> rsent (readers s ! j) = []"
        by (simp_all add: collector_ok_def)
      have nk: "\<not> i < k" using lo [OF i] rd by auto
      have "rpc ((readers s)[i := ?r'] ! j) = Closed" if "j < length (readers s)" "j < k" for j
        using that nk lo [of j] by (cases "j = i") simp_all
      moreover have "rsent ((readers s)[i := ?r'] ! j) = []" if "j < length (readers s)" "k < j" for j
        using that hi [of j] i by (cases "j = i") simp_all
      ultimately show ?thesis using Draining k by (simp add: collector_ok_def)
    next
      case Finished
      with co i have "rpc ?r = Closed" by (simp add: collector_ok_def)
      with rd show ?thesis by simp
    qed
    have ma: "main_ok cfg ?s'"
      using assms by (auto simp: node_inv_def main_ok_def split: main_pc.splits)
    show ?thesis
      unfolding st using assms rds co' ma mo ms by (simp add: node_inv_def)
  qed
qed

lemma concat_map_update_last:
  assumes i: "i < length xs"
    and later: "\<forall>j < length xs. i < j \<longrightarrow> f (xs ! j) = []"
    and y: "f y = f (xs ! i) @ e"
  shows "concat (map f (xs[i := y])) = concat (map f xs) @ e"
proof -
  have "f x = []" if "x \<in> set (drop (Suc i) xs)" for x
  proof -
    from that obtain k where k: "k < length (drop (Suc i) xs)" "x = drop (Suc i) xs ! k"
      by (auto simp: in_set_conv_nth)
    then have "x = xs ! (Suc i + k)" "Suc i + k < length xs" by simp_all
    with later show ?thesis by simp
  qed
  then have tail: "concat (map f (drop (Suc i) xs)) = []" by simp
  have a: "xs[i := y] = take i xs @ y # drop (Suc i) xs"
    using i by (rule upd_conv_take_nth_drop)
  have b: "xs = take i xs @ xs ! i # drop (Suc i) xs"
    using i by (rule id_take_nth_drop)
  have "concat (map f (xs[i := y])) = concat (map f (take i xs)) @ f y"
    unfolding a using tail by simp
  moreover have "concat (map f xs) = concat (map f (take i xs)) @ f (xs ! i)"
    using arg_cong [OF b, of "\<lambda>l. concat (map f l)"] tail by simp
  ultimately show ?thesis using y by simp
qed

lemma node_inv_collector:
  assumes "node_inv cfg inbound s"
  shows "node_inv cfg inbound (collector_step s)"
proof (cases "collector s")
  case NotStarted
  with assms show ?thesis by (simp add: collector_step_def)
next
  case Finished
  with assms show ?thesis by (simp add: collector_step_def)
next
  case (Draining i)
  from assms Draining have i_le: "i \<le> length (readers s)"
    and lo: "\<And>j. j < length (readers s) \<Longrightarrow> j < i \<Longrightarrow> rpc (readers s ! j) = Closed"
    and hi: "\<And>j. j < length (readers s) \<Longrightarrow> i < j \<Longrightarrow> rsent (readers s ! j) = []"
    by (simp_all add: node_inv_def collector_ok_def)
  from assms Draining have nm: "\<And>out. mainpc s \<noteq> Merged out"
    by (auto simp: node_inv_def main_ok_def)
  have ma: "main_ok cfg s'" if "mainpc s' = mainpc s" for s'
    using assms that nm by (auto simp: node_inv_def main_ok_def split: main_pc.splits)
  show ?thesis
  proof (cases "i < length (readers s)")
    case False
    let ?s' = "s\<lparr>collector := Finished, waitGroup := waitGroup s - 1\<rparr>"
    have st: "collector_step s = ?s'"
      using Draining False by (simp add: collector_step_def)
    from False i_le have "i = length (readers s)" by simp
    with lo have "\<forall>r \<in> set (readers s). rpc r = Closed"
      by (auto simp: in_set_conv_nth)
    then have "collector_ok ?s'" by (simp add: collector_ok_def)
    moreover have "main_ok cfg ?s'" by (rule ma) simp
    ultimately show ?thesis
      unfolding st using assms Draining by (simp add: node_inv_def)
  next
    case True
    let ?r = "readers s ! i"
    from assms True have ok: "reader_ok ?r" by (simp add: node_inv_def)
    show ?thesis
    proof (cases "rpc ?r")
      case Reading
      then have "collector_step s = s"
        using Draining True by (simp add: collector_step_def Let_def)
      with assms show ?thesis by simp
    next
      case Closed
      let ?s' = "s\<lparr>collector := Draining (i + 1)\<rparr>"
      have st: "collector_step s = ?s'"
        using Draining True Closed by (simp add: collector_step_def Let_def)
      have "rpc (readers s ! j) = Closed" if "j < length (readers s)" "j < i + 1" for j
        using that lo [of j] Closed by (cases "j = i") simp_all
      then have "collector_ok ?s'"
        using True hi by (simp add: collector_ok_def)
      moreover have "main_ok cfg ?s'" by (rule ma) simp
      ultimately show ?thesis
        unfolding st using assms Draining by (simp add: node_inv_def)
    next
      case (Sending rec)
      let ?r' = "?r\<lparr>rpc := Reading, rsent := rsent ?r @ [rec]\<rparr>"
      let ?s' = "s\<lparr>receivedRecords := receivedRecords s @ [rec], readers := (readers s)[i := ?r']\<rparr>"
      have st: "collector_step s = ?s'"
        using Draining True Sending by (simp add: collector_step_def Let_def)
      have ok': "reader_ok ?r'"
        using ok Sending by (simp add: reader_ok_def)
      have rds: "\<forall>r \<in> set ((readers s)[i := ?r']). reader_ok r"
      proof
        fix r assume "r \<in> set ((readers s)[i := ?r'])"
        then have "r = ?r' \<or> r \<in> set (readers s)"
          using set_update_subset_insert [of "readers s" i ?r'] by auto
        then show "reader_ok r" using ok' assms by (auto simp: node_inv_def)
      qed
      have mo: "map orig ((readers s)[i := ?r']) = map orig (readers s)"
        by (rule map_update_same [OF True]) simp
      have rc: "concat (map rsent ((readers s)[i := ?r'])) = concat (map rsent (readers s)) @ [rec]"
        by (rule concat_map_update_last [OF True]) (simp_all add: hi)
      have "rpc ((readers s)[i := ?r'] ! j) = Closed" if "j < length (readers s)" "j < i" for j
        using that lo [of j] by simp
      moreover have "rsent ((readers s)[i := ?r'] ! j) = []" if "j < length (readers s)" "i < j" for j
        using that hi [of j] by simp
      ultimately have co': "collector_ok ?s'"
        using Draining i_le by (simp add: collector_ok_def)
      have ma': "main_ok cfg ?s'" by (rule ma) simp
      show ?thesis
        unfolding st using assms Draining rds mo rc co' ma' by (simp add: node_inv_def)
    qed
  qed
qed

lemma node_inv_main:
  assumes "node_inv cfg inbound s"
  shows "node_inv cfg inbound (main_step cfg s)"
proof -
  have keep: "node_inv cfg inbound (s\<lparr>mainpc := m\<rparr>)" if "main_ok cfg (s\<lparr>mainpc := m\<rparr>)" for m
    using assms that
    by (simp add: node_inv_def collector_ok_cong [of "s\<lparr>mainpc := m\<rparr>" s])
  show ?thesis
  proof (cases "mainpc s")
    case Dispatching
    show ?thesis
    proof (cases "dispatch (cfg_numServers cfg) (cfg_serverID cfg) (cfg_inputFile cfg) (cfg_order cfg)")
      case (Inl e)
      have "main_ok cfg (s\<lparr>mainpc := Exited e\<rparr>)" by (simp add: main_ok_def)
      from keep [OF this] show ?thesis using Dispatching Inl by (simp add: main_step_def)
    next
      case (Inr st)
      then have "main_ok cfg (s\<lparr>mainpc := AtBarrier (ownRecords st)\<rparr>)" by (simp add: main_ok_def)
      from keep [OF this] show ?thesis using Dispatching Inr by (simp add: main_step_def)
    qed
  next
    case (AtBarrier own)
    show ?thesis
    proof (cases "waitGroup s = 0")
      case False
      with AtBarrier assms show ?thesis by (simp add: main_step_def)
    next
      case True
      from assms have "waitGroup s = (if collector s = Finished then 0 else 1)"
        by (simp add: node_inv_def)
      with True have fin: "collector s = Finished" by (simp split: if_splits)
      from assms AtBarrier obtain st where
        "dispatch (cfg_numServers cfg) (cfg_serverID cfg) (cfg_inputFile cfg) (cfg_order cfg) = Inr st"
        "own = ownRecords st"
        by (auto simp: node_inv_def main_ok_def)
      with fin have "main_ok cfg (s\<lparr>mainpc := Merged (merge_emit own (receivedRecords s))\<rparr>)"
        by (simp add: main_ok_def)
      from keep [OF this] show ?thesis using AtBarrier True by (simp add: main_step_def)
    qed
  next
    case (Merged out)
    with assms show ?thesis by (simp add: main_step_def)
  next
    case (Exited e)
    with assms show ?thesis by (simp add: main_step_def)
  qed
qed

lemma node_inv_step:
  "node_inv cfg inbound s \<Longrightarrow> node_inv cfg inbound (step cfg g s)"
  by (cases g)
    (simp_all add: step_def node_inv_acceptor node_inv_reader node_inv_collector node_inv_main)

lemma node_inv_run:
  "node_inv cfg inbound s \<Longrightarrow> node_inv cfg inbound (run cfg gs s)"
  by (induction gs arbitrary: s) (simp_all add: node_inv_step)

lemma node_inv_reachable: "node_inv cfg inbound (run cfg gs (init_node inbound))"
  by (rule node_inv_run) (rule node_inv_init)

lemma read_frame_single:
  assumes "length frame = 101"
  shows "read_frame \<lparr>pending = frame @ rest, sched = []\<rparr> 0 [] =
           Inr (frame, \<lparr>pending = rest, sched = []\<rparr>)"
proof -
  have "conn_Read \<lparr>pending = frame @ rest, sched = []\<rparr> 101 =
          Inr (frame, \<lparr>pending = rest, sched = []\<rparr>)"
    using assms by (auto simp: conn_Read_def)
  then show ?thesis
    using assms by (simp add: read_frame.simps [of _ 0 "[]"])
qed

lemma ingest_Nil: "ingest n sid [] st = Inr st"
  by (simp add: ingest.simps [of n sid "[]"] file_Read_def)

lemma read_frame_terminator_only:
  "read_frame \<lparr>pending = terminator_frame, sched = []\<rparr> 0 [] =
     Inr (terminator_frame, \<lparr>pending = [], sched = []\<rparr>)"
  using read_frame_single [OF length_terminator_frame, of "[]"] by simp

lemma terminator_frame_control: "terminator_frame ! 0 = 1"
  by (simp add: terminator_frame_def)

lemma data_frame_control: "data_frame r ! 0 = 0"
  by (simp add: data_frame_def)

lemma dispatch_empty_shard:
  "sid < n \<Longrightarrow> dispatch n sid [] order =
     Inr \<lparr>ownRecords = [], connections = send_terminators order (dial_peers n sid)\<rparr>"
  by (simp add: dispatch_def ingest_Nil)

text \<open>
  What a reader's run shows to the rest of the program: the fatal error, or the records
  delivered and the bytes of the stream left unread.
\<close>

definition observable :: "error + (Record list \<times> conn) \<Rightarrow> error + (Record list \<times> byte list)" where
  "observable res = (case res of Inl e \<Rightarrow> Inl e | Inr (recs, c) \<Rightarrow> Inr (recs, pending c))"

lemma receiveData_schedule_independent:
  "observable (receiveData \<lparr>pending = p, sched = s\<rparr> dl) =
   observable (receiveData \<lparr>pending = p, sched = s'\<rparr> dl)"
proof (induction "length p" arbitrary: p s s' dl rule: less_induct)
  case less
  show ?case
  proof (cases "length p < 101")
    case True
    then have "read_frame \<lparr>pending = p, sched = t\<rparr> 0 [] = Inl EOF" for t
      by (intro read_frame_short) simp_all
    then have "receiveData \<lparr>pending = p, sched = t\<rparr> dl = Inl EOF" for t
      by (simp add: receiveData.simps [of "\<lparr>pending = p, sched = t\<rparr>"])
    then show ?thesis by simp
  next
    case False
    have rf: "\<exists>t'. read_frame \<lparr>pending = p, sched = t\<rparr> 0 [] =
        Inr (take 101 p, \<lparr>pending = drop 101 p, sched = t'\<rparr>)" for t
      using read_frame_enough [of 0 "\<lparr>pending = p, sched = t\<rparr>" "[]"] False by simp
    from rf [of s] obtain s1 where
      a: "read_frame \<lparr>pending = p, sched = s\<rparr> 0 [] = Inr (take 101 p, \<lparr>pending = drop 101 p, sched = s1\<rparr>)" ..
    from rf [of s'] obtain s2 where
      b: "read_frame \<lparr>pending = p, sched = s'\<rparr> 0 [] = Inr (take 101 p, \<lparr>pending = drop 101 p, sched = s2\<rparr>)" ..
    show ?thesis
    proof (cases "take 101 p ! 0 = 1")
      case True
      with a b show ?thesis
        by (simp add: receiveData.simps [of "\<lparr>pending = p, sched = s\<rparr>"]
            receiveData.simps [of "\<lparr>pending = p, sched = s'\<rparr>"] observable_def)
    next
      case data: False
      have "length (drop 101 p) < length p" using False by simp
      from less [OF this, of s1 "dl @ [decode_record (take 101 p)]" s2] a b data
      show ?thesis
        by (simp add: receiveData.simps [of "\<lparr>pending = p, sched = s\<rparr>"]
            receiveData.simps [of "\<lparr>pending = p, sched = s'\<rparr>"])
    qed
  qed
qed

lemma three_not_power_of_two: "(3::nat) \<noteq> 2 ^ k"
proof
  assume a: "(3::nat) = 2 ^ k"
  show False
  proof (cases k)
    case 0
    with a show False by simp
  next
    case (Suc j)
    with a have "(3::nat) = 2 * 2 ^ j" by simp
    then have "even (3::nat)" by (metis dvd_triv_left)
    then show False by simp
  qed
qed

section \<open>The claims\<close>

subsection \<open>Frame round trip\<close>

text \<open>
  Claim C5. For every record with a 10-byte key and a 90-byte value, the data frame the
  dispatch loop writes is 101 bytes long, starts with the control byte 0, and decodes to
  the same record; a reader fed that frame followed by a terminator delivers exactly that
  record, whatever the chunking of the stream.
\<close>

theorem frame_round_trip:
  assumes "wf_Record r"
  shows "length (data_frame r) = 101 \<and> data_frame r ! 0 = 0
       \<and> data_frame r = 0 # Key r @ Value r
       \<and> decode_record (data_frame r) = r
       \<and> (\<exists>s'. receiveData \<lparr>pending = data_frame r @ terminator_frame, sched = s\<rparr> [] =
              Inr ([r], \<lparr>pending = [], sched = s'\<rparr>))"
proof -
  have "\<exists>s'. receiveData \<lparr>pending = concat (map data_frame [r]) @ terminator_frame @ [], sched = s\<rparr> [] =
          Inr ([] @ [r], \<lparr>pending = [], sched = s'\<rparr>)"
    by (rule receiveData_stream) (simp add: assms)
  then show ?thesis
    using assms by (simp add: length_data_frame decode_data_frame) (simp add: data_frame_def)
qed

theorem frame_round_trip_witness:
  "wf_Record \<lparr>Key = replicate 10 255, Value = replicate 90 255\<rparr>
   \<and> decode_record (data_frame \<lparr>Key = replicate 10 255, Value = replicate 90 255\<rparr>) =
       \<lparr>Key = replicate 10 255, Value = replicate 90 255\<rparr>
   \<and> wf_Record \<lparr>Key = replicate 10 0, Value = replicate 90 0\<rparr>
   \<and> decode_record (data_frame \<lparr>Key = replicate 10 0, Value = replicate 90 0\<rparr>) =
       \<lparr>Key = replicate 10 0, Value = replicate 90 0\<rparr>"
proof -
  have a: "wf_Record \<lparr>Key = replicate 10 255, Value = replicate 90 255\<rparr>"
    by (simp add: wf_Record_def)
  have b: "wf_Record \<lparr>Key = replicate 10 0, Value = replicate 90 0\<rparr>"
    by (simp add: wf_Record_def)
  show ?thesis
    using a b frame_round_trip [OF a] frame_round_trip [OF b] by blast
qed

subsection \<open>Short reads\<close>

text \<open>
  Claim C6. The frame read loop accumulates exactly the 101 bytes of the frame before the
  control byte is looked at and leaves every later byte of the stream unread; this holds
  for every schedule of chunk sizes, one byte at a time included, so the frame read is the
  one a single full read (the empty schedule) returns, and what the reader goes on to
  deliver from the stream, or the error it ends with, is the same under every schedule.
\<close>

theorem partial_read_robust:
  assumes "length frame = 101"
  shows "(\<exists>s'. read_frame \<lparr>pending = frame @ rest, sched = s\<rparr> 0 [] =
             Inr (frame, \<lparr>pending = rest, sched = s'\<rparr>))
       \<and> read_frame \<lparr>pending = frame @ rest, sched = []\<rparr> 0 [] =
             Inr (frame, \<lparr>pending = rest, sched = []\<rparr>)
       \<and> observable (receiveData \<lparr>pending = frame @ rest, sched = s\<rparr> dl) =
           observable (receiveData \<lparr>pending = frame @ rest, sched = []\<rparr> dl)"
proof -
  from read_frame_whole [OF assms] obtain s' where
    a: "read_frame \<lparr>pending = frame @ rest, sched = s\<rparr> 0 [] = Inr (frame, \<lparr>pending = rest, sched = s'\<rparr>)"
    by blast
  have b: "read_frame \<lparr>pending = frame @ rest, sched = []\<rparr> 0 [] =
      Inr (frame, \<lparr>pending = rest, sched = []\<rparr>)"
    by (rule read_frame_single [OF assms])
  from a b receiveData_schedule_independent [of "frame @ rest" s dl "[]"] show ?thesis by blast
qed

theorem partial_read_robust_witness:
  "length (0 # replicate 100 (7 :: byte)) = 101
   \<and> (\<exists>s'. read_frame \<lparr>pending = (0 # replicate 100 7) @ [9, 9], sched = replicate 200 1\<rparr> 0 [] =
             Inr (0 # replicate 100 7, \<lparr>pending = [9, 9], sched = s'\<rparr>))"
proof -
  have l: "length (0 # replicate 100 (7 :: byte)) = 101" by simp
  from partial_read_robust [OF l, of "[9, 9]" "replicate 200 1" "[]"] l show ?thesis by blast
qed

subsection \<open>Terminator on an empty stream\<close>

text \<open>
  Claim C8. On a connection whose whole stream is one terminator frame (control byte 1
  and any 100 payload bytes), the reader returns normally, which closes its delivery
  channel, having delivered no record; the payload plays no part in the result, and all
  101 bytes of the frame are consumed.
\<close>

theorem terminator_only_stream:
  assumes "length payload = 100"
  shows "\<exists>s'. receiveData \<lparr>pending = 1 # payload, sched = s\<rparr> [] =
           Inr ([], \<lparr>pending = [], sched = s'\<rparr>)"
  using receiveData_terminator_step [of "1 # payload" "[]" s "[]"] assms by simp

theorem terminator_only_stream_witness:
  "length (replicate 100 (171 :: byte)) = 100
   \<and> (\<exists>s'. receiveData \<lparr>pending = 1 # replicate 100 171, sched = [3, 1, 50]\<rparr> [] =
           Inr ([], \<lparr>pending = [], sched = s'\<rparr>))"
proof -
  have l: "length (replicate 100 (171 :: byte)) = 100" by simp
  from terminator_only_stream [OF l, of "[3, 1, 50]"] l show ?thesis by blast
qed

subsection \<open>Control bytes other than 0 and 1\<close>

text \<open>
  Claim C10. One iteration of the reader on a 101-byte frame: when the control byte is 1
  the reader returns with what it had delivered; for every other control byte (0 and
  2..255 alike) it delivers the record whose key is bytes 1..10 and whose value is bytes
  11..100 of the frame and goes on with the rest of the stream. No error arises from the
  control byte.
\<close>

theorem control_byte_dispatch:
  assumes "length payload = 100"
  shows "\<exists>s'. receiveData \<lparr>pending = (ctl # payload) @ rest, sched = s\<rparr> dl =
           (if ctl = 1 then Inr (dl, \<lparr>pending = rest, sched = s'\<rparr>)
            else receiveData \<lparr>pending = rest, sched = s'\<rparr>
                   (dl @ [\<lparr>Key = take 10 payload, Value = drop 10 payload\<rparr>]))"
proof (cases "ctl = 1")
  case True
  then show ?thesis
    using receiveData_terminator_step [of "ctl # payload" rest s dl] assms by simp
next
  case False
  have d: "decode_record (ctl # payload) = \<lparr>Key = take 10 payload, Value = drop 10 payload\<rparr>"
    using assms by (simp add: decode_record_def copy_into_def slice_def)
  show ?thesis
    using receiveData_data_step [of "ctl # payload" rest s dl] assms False d by simp
qed

theorem control_byte_dispatch_witness:
  "length (replicate 10 (5 :: byte) @ replicate 90 6) = 100
   \<and> (\<exists>s'. receiveData \<lparr>pending = (2 # replicate 10 5 @ replicate 90 6) @ terminator_frame,
                          sched = [40, 40]\<rparr> [] =
           Inr ([\<lparr>Key = replicate 10 5, Value = replicate 90 6\<rparr>], \<lparr>pending = [], sched = s'\<rparr>))"
proof -
  have l: "length (replicate 10 (5 :: byte) @ replicate 90 6) = 100" by simp
  from control_byte_dispatch [OF l, of 2 terminator_frame "[40, 40]" "[]"] obtain s1 where
    a: "receiveData \<lparr>pending = (2 # replicate 10 5 @ replicate 90 6) @ terminator_frame,
                          sched = [40, 40]\<rparr> [] =
        receiveData \<lparr>pending = terminator_frame, sched = s1\<rparr>
          [\<lparr>Key = replicate 10 5, Value = replicate 90 6\<rparr>]"
    by auto
  from receiveData_terminator_step [of terminator_frame "[]" s1
      "[\<lparr>Key = replicate 10 5, Value = replicate 90 6\<rparr>]"]
  obtain s2 where
    "receiveData \<lparr>pending = terminator_frame, sched = s1\<rparr>
          [\<lparr>Key = replicate 10 5, Value = replicate 90 6\<rparr>] =
       Inr ([\<lparr>Key = replicate 10 5, Value = replicate 90 6\<rparr>], \<lparr>pending = [], sched = s2\<rparr>)"
    by (auto simp: terminator_frame_def)
  with a l show ?thesis by auto
qed

subsection \<open>Destination of a key\<close>

text \<open>
  Claim C3, as amended. For a cluster size \<open>N = 2 ^ k\<close> with \<open>k \<le> 8\<close> (at most 256
  nodes) and every key with at least one byte, the destination is computed, equals the
  first key byte shifted right by \<open>8 - k\<close>, lies in \<open>[0, N)\<close>, and is the same for
  any two keys whose first bytes agree on their top \<open>k\<close> bits (bit positions
  \<open>8 - k\<close> to 7). Being a function of the key and \<open>N\<close>, it is deterministic.
\<close>

theorem partition_pow2:
  assumes "k \<le> 8" and "key \<noteq> []"
  shows "keyToServer key (2 ^ k) = Inr (unat (drop_bit (8 - k) (hd key)))
       \<and> unat (drop_bit (8 - k) (hd key)) < 2 ^ k
       \<and> (\<forall>key'. key' \<noteq> [] \<and> (\<forall>i. 8 - k \<le> i \<and> i < 8 \<longrightarrow> bit (hd key') i = bit (hd key) i)
             \<longrightarrow> keyToServer key' (2 ^ k) = keyToServer key (2 ^ k))"
proof -
  have val: "keyToServer q (2 ^ k) = Inr (unat (drop_bit (8 - k) (hd q)))" if "q \<noteq> []" for q
    using that assms(1) by (cases q) (simp_all add: keyToServer_def msb_power unat_drop_bit_eq)
  have "unat (drop_bit (8 - k) (hd key)) < 2 ^ msb (2 ^ k)"
    by (rule keyToServer_bound [of key]) (rule val [OF assms(2)])
  then have bound: "unat (drop_bit (8 - k) (hd key)) < 2 ^ k" by (simp add: msb_power)
  have same: "keyToServer key' (2 ^ k) = keyToServer key (2 ^ k)"
    if ne: "key' \<noteq> []" and bits: "\<forall>i. 8 - k \<le> i \<and> i < 8 \<longrightarrow> bit (hd key') i = bit (hd key) i"
    for key'
  proof -
    have "drop_bit (8 - k) (hd key') = drop_bit (8 - k) (hd key)"
    proof (rule bit_eqI)
      fix j
      show "bit (drop_bit (8 - k) (hd key')) j = bit (drop_bit (8 - k) (hd key)) j"
      proof (cases "8 - k + j < 8")
        case True
        with bits show ?thesis by (simp add: bit_drop_bit_eq)
      next
        case False
        then have "\<not> bit (hd key') (8 - k + j)" "\<not> bit (hd key) (8 - k + j)"
          by (auto dest: bit_imp_le_length)
        then show ?thesis by (simp add: bit_drop_bit_eq)
      qed
    qed
    then show ?thesis using val [OF ne] val [OF assms(2)] by simp
  qed
  from val [OF assms(2)] bound same show ?thesis by blast
qed

theorem partition_pow2_witness:
  "(1::nat) \<le> 8 \<and> 128 # replicate 9 (0 :: byte) \<noteq> []
   \<and> keyToServer (128 # replicate 9 0) (2 ^ 1) = Inr 1"
proof -
  have a: "(1::nat) \<le> 8" by simp
  have b: "128 # replicate 9 (0 :: byte) \<noteq> []" by simp
  have "unat (drop_bit (8 - 1) (128 :: byte)) = 1" by simp
  with partition_pow2 [OF a b] show ?thesis by simp
qed

text \<open>
  The claim as stated fails for powers of two above 256: with 512 nodes the shift count
  is \<open>8 - 9\<close>, and no destination is computed.
\<close>

theorem partition_pow2_counterexample:
  "(512 :: nat) = 2 ^ 9 \<and> keyToServer (0 # replicate 9 0) 512 = Inl NegativeShift
   \<and> \<not> (\<exists>d. keyToServer (0 # replicate 9 0) 512 = Inr d \<and> d < 512)"
proof -
  have p: "(512 :: nat) = 2 ^ 9" by simp
  have "msb 512 = 9" unfolding p by (rule msb_power)
  then have "keyToServer (0 # replicate 9 0) 512 = Inl NegativeShift"
    by (simp add: keyToServer_Cons)
  with p show ?thesis by simp
qed

text \<open>
  Claim C4. For a cluster size \<open>N\<close> that is not a power of two, no key is ever sent to
  a node id at or above \<open>2 ^ floor (log2 N)\<close>, and that bound is below \<open>N\<close>, so the
  node ids from the bound up to \<open>N - 1\<close> are never selected. Below 512 nodes a
  destination is computed for every key with at least one byte.
\<close>

theorem partition_gap:
  assumes "0 < N" and "\<forall>k. N \<noteq> 2 ^ k" and "key \<noteq> []"
  shows "(\<forall>d. keyToServer key N = Inr d \<longrightarrow> d < 2 ^ nat \<lfloor>log 2 (real N)\<rfloor>)
       \<and> 2 ^ nat \<lfloor>log 2 (real N)\<rfloor> < N
       \<and> nat \<lfloor>log 2 (real N)\<rfloor> = msb N
       \<and> (N < 512 \<longrightarrow> (\<exists>d. keyToServer key N = Inr d))"
proof -
  have m: "nat \<lfloor>log 2 (real N)\<rfloor> = msb N"
    using msb_floor_log2 [OF assms(1)] by simp
  have "2 ^ msb N \<le> N" using msb_bounds [OF assms(1)] by simp
  moreover have "N \<noteq> 2 ^ msb N" using assms(2) by blast
  ultimately have lt: "2 ^ msb N < N" by simp
  have tot: "\<exists>d. keyToServer key N = Inr d" if "N < 512"
    using keyToServer_total [OF assms(3) msb_le_8 [OF assms(1) that]] .
  show ?thesis
    unfolding m using lt tot keyToServer_bound [of key N] by blast
qed

theorem partition_gap_witness:
  "(0::nat) < 3 \<and> (\<forall>k. (3::nat) \<noteq> 2 ^ k) \<and> 255 # replicate 9 (255 :: byte) \<noteq> []
   \<and> keyToServer (255 # replicate 9 255) 3 = Inr 1
   \<and> (1::nat) < 2 ^ nat \<lfloor>log 2 (real 3)\<rfloor> \<and> (2::nat) ^ nat \<lfloor>log 2 (real 3)\<rfloor> < 3"
proof -
  have a: "(0::nat) < 3" by simp
  have b: "\<forall>k. (3::nat) \<noteq> 2 ^ k" using three_not_power_of_two by blast
  have c: "255 # replicate 9 (255 :: byte) \<noteq> []" by simp
  have "msb 3 = 1" by (rule msb_unique) simp_all
  then have d: "keyToServer (255 # replicate 9 255) 3 = Inr 1"
    by (simp add: keyToServer_Cons drop_bit_eq_div)
  note t = partition_gap [OF a b c]
  from t d have e: "(1::nat) < 2 ^ nat \<lfloor>log 2 (real 3)\<rfloor>" by blast
  from t have f: "(2::nat) ^ nat \<lfloor>log 2 (real 3)\<rfloor> < 3" by blast
  from a b c d e f show ?thesis by blast
qed

subsection \<open>Terminators\<close>

text \<open>
  Claim C7. Whenever the sending half of the program completes, and it does for every
  cluster of fewer than 512 nodes, the bytes written on the connection to every peer
  \<open>p\<close> other than self are the data frames of the input records routed to \<open>p\<close>,
  in input order, followed by one terminator frame, also when no record was routed to
  \<open>p\<close>; nothing is written anywhere else. This holds for every order in which the
  range loop visits the connections. Read back by the peer's reader under any chunking,
  the stream yields those records and ends at the terminator with no byte left over, so
  the terminator is the only one and the last frame.
\<close>

theorem terminators_sent:
  assumes "distinct order" and "set order = {p. p < n \<and> p \<noteq> sid}"
  shows "(sid < n \<and> n < 512 \<longrightarrow> (\<exists>st. dispatch n sid f order = Inr st))
       \<and> (\<forall>st. dispatch n sid f order = Inr st \<longrightarrow>
            (\<forall>p. if p < n \<and> p \<noteq> sid
                 then connections st p =
                        Some (concat (map data_frame (routed_to n p (shard_records f))) @ terminator_frame)
                    \<and> (\<forall>s. \<exists>s'. receiveData \<lparr>pending = the (connections st p), sched = s\<rparr> [] =
                           Inr (routed_to n p (shard_records f), \<lparr>pending = [], sched = s'\<rparr>))
                 else connections st p = None))"
proof (intro conjI impI allI)
  assume "sid < n \<and> n < 512"
  then show "\<exists>st. dispatch n sid f order = Inr st"
    using dispatch_total [of sid n f order] by simp
next
  fix st p
  assume run: "dispatch n sid f order = Inr st"
  let ?rs = "routed_to n p (shard_records f)"
  note c = terminators_sent_general [OF run assms, of p]
  show "if p < n \<and> p \<noteq> sid
        then connections st p = Some (concat (map data_frame ?rs) @ terminator_frame)
           \<and> (\<forall>s. \<exists>s'. receiveData \<lparr>pending = the (connections st p), sched = s\<rparr> [] =
                  Inr (?rs, \<lparr>pending = [], sched = s'\<rparr>))
        else connections st p = None"
  proof (cases "p < n \<and> p \<noteq> sid")
    case True
    with c have e: "connections st p = Some (concat (map data_frame ?rs) @ terminator_frame)"
      by simp
    have wf: "\<forall>r \<in> set ?rs. wf_Record r"
      by (auto simp: routed_to_def intro: wf_shard_records)
    have "\<exists>s'. receiveData \<lparr>pending = the (connections st p), sched = s\<rparr> [] =
                      Inr (?rs, \<lparr>pending = [], sched = s'\<rparr>)" for s
      using receiveData_stream [OF wf, of "[]" s "[]"] e by simp
    with e True show ?thesis by simp
  next
    case False
    with c show ?thesis by simp
  qed
qed

theorem terminators_sent_witness:
  "distinct [2, 3, 1 :: nat] \<and> set [2, 3, 1] = {p. p < 4 \<and> p \<noteq> (0 :: nat)}
   \<and> (\<exists>st. dispatch 4 0 (replicate 100 0 @ replicate 100 255) [2, 3, 1] = Inr st
       \<and> connections st 0 = None
       \<and> connections st 1 = Some terminator_frame
       \<and> connections st 2 = Some terminator_frame
       \<and> connections st 3 =
           Some (data_frame \<lparr>Key = replicate 10 255, Value = replicate 90 255\<rparr> @ terminator_frame))"
proof -
  let ?f = "replicate 100 0 @ replicate 100 (255 :: byte)"
  have d: "distinct [2, 3, 1 :: nat]" by simp
  have s: "set [2, 3, 1] = {p. p < 4 \<and> p \<noteq> (0 :: nat)}" by auto
  note t = terminators_sent [OF d s, of ?f]
  from t obtain st where run: "dispatch 4 0 ?f [2, 3, 1] = Inr st" by auto
  have "shard_records ?f =
      \<lparr>Key = take 10 (replicate 100 0), Value = drop 10 (replicate 100 0)\<rparr> #
      shard_records (replicate 100 255 @ [])"
    using shard_records_full [of "replicate 100 0" "replicate 100 255 @ []"] by simp
  also have "shard_records (replicate 100 255 @ []) =
      [\<lparr>Key = take 10 (replicate 100 255), Value = drop 10 (replicate 100 255)\<rparr>]"
    using shard_records_full [of "replicate 100 255" "[]"] by (simp add: shard_records_Nil)
  finally have sr: "shard_records ?f =
      [\<lparr>Key = replicate 10 0, Value = replicate 90 0\<rparr>,
       \<lparr>Key = replicate 10 255, Value = replicate 90 255\<rparr>]" by simp
  have m: "msb 4 = 2" by (rule msb_unique) simp_all
  have k0: "keyToServer (replicate 10 0) 4 = Inr 0"
    by (simp add: keyToServer_hd m)
  have k3: "keyToServer (replicate 10 255) 4 = Inr 3"
    by (simp add: keyToServer_hd m drop_bit_eq_div)
  have r: "routed_to 4 1 (shard_records ?f) = []" "routed_to 4 2 (shard_records ?f) = []"
    "routed_to 4 3 (shard_records ?f) = [\<lparr>Key = replicate 10 255, Value = replicate 90 255\<rparr>]"
    by (simp_all add: sr routed_to_def k0 k3)
  from t run have all: "\<forall>p. if p < 4 \<and> p \<noteq> 0
      then connections st p =
             Some (concat (map data_frame (routed_to 4 p (shard_records ?f))) @ terminator_frame)
         \<and> (\<forall>s. \<exists>s'. receiveData \<lparr>pending = the (connections st p), sched = s\<rparr> [] =
                Inr (routed_to 4 p (shard_records ?f), \<lparr>pending = [], sched = s'\<rparr>))
      else connections st p = None" by blast
  have c: "connections st p =
      Some (concat (map data_frame (routed_to 4 p (shard_records ?f))) @ terminator_frame)"
    if "p < 4" "p \<noteq> 0" for p
  proof -
    from all have "if p < 4 \<and> p \<noteq> 0
      then connections st p =
             Some (concat (map data_frame (routed_to 4 p (shard_records ?f))) @ terminator_frame)
         \<and> (\<forall>s. \<exists>s'. receiveData \<lparr>pending = the (connections st p), sched = s\<rparr> [] =
                Inr (routed_to 4 p (shard_records ?f), \<lparr>pending = [], sched = s'\<rparr>))
      else connections st p = None" by (rule spec)
    with that show ?thesis by simp
  qed
  from all have "if (0::nat) < 4 \<and> (0::nat) \<noteq> 0 then
       connections st 0 =
             Some (concat (map data_frame (routed_to 4 0 (shard_records ?f))) @ terminator_frame)
         \<and> (\<forall>s. \<exists>s'. receiveData \<lparr>pending = the (connections st 0), sched = s\<rparr> [] =
                Inr (routed_to 4 0 (shard_records ?f), \<lparr>pending = [], sched = s'\<rparr>))
      else connections st 0 = None" by (rule spec)
  then have "connections st 0 = None" by simp
  moreover have "connections st 1 = Some terminator_frame"
    using c [of 1] r(1) by simp
  moreover have "connections st 2 = Some terminator_frame"
    using c [of 2] r(2) by simp
  moreover have "connections st 3 =
           Some (data_frame \<lparr>Key = replicate 10 255, Value = replicate 90 255\<rparr> @ terminator_frame)"
    using c [of 3] r(3) by simp
  ultimately show ?thesis using run d s by blast
qed

subsection \<open>A shard that ends inside a record\<close>

text \<open>
  Claim C9 does not hold of the read loop. It issues one read for the key and one for the
  value and never looks at the byte counts, so the 15 bytes of a shard that ends inside a
  record become a record of their own: the 10 key bytes, the 5 value bytes that are
  there, and 85 zero bytes the file does not contain. With two nodes that record is
  sent to peer 1 by node 0 and kept in the local buffer by node 1.
\<close>

theorem short_record_dispatched:
  "shard_records (replicate 15 255) =
     [\<lparr>Key = replicate 10 255, Value = replicate 5 255 @ replicate 85 0\<rparr>]
   \<and> (\<exists>st. dispatch 2 0 (replicate 15 255) [1] = Inr st
         \<and> connections st 1 =
             Some (data_frame \<lparr>Key = replicate 10 255, Value = replicate 5 255 @ replicate 85 0\<rparr>
                   @ terminator_frame))
   \<and> (\<exists>st. dispatch 2 1 (replicate 15 255) [0] = Inr st
         \<and> ownRecords st = [\<lparr>Key = replicate 10 255, Value = replicate 5 255 @ replicate 85 0\<rparr>])"
proof -
  let ?f = "replicate 15 (255 :: byte)"
  let ?r = "\<lparr>Key = replicate 10 255, Value = replicate 5 (255 :: byte) @ replicate 85 0\<rparr>"
  have sr: "shard_records ?f = [?r]"
    using shard_records_short [of ?f] by simp
  have m: "msb 2 = 1" by (rule msb_unique) simp_all
  have k: "keyToServer (replicate 10 255) 2 = Inr 1"
    by (simp add: keyToServer_hd m drop_bit_eq_div)
  have r1: "routed_to 2 1 (shard_records ?f) = [?r]"
    by (simp add: sr routed_to_def k)
  obtain st0 where run0: "dispatch 2 0 ?f [1] = Inr st0"
    using dispatch_total [of 0 2 ?f "[1]"] by auto
  have "set [1] = {p. p < 2 \<and> p \<noteq> (0::nat)}" by auto
  from terminators_sent_general [OF run0 _ this, of 1] r1
  have c: "connections st0 1 = Some (data_frame ?r @ terminator_frame)" by simp
  obtain st1 where run1: "dispatch 2 1 ?f [0] = Inr st1"
    using dispatch_total [of 1 2 ?f "[0]"] by auto
  from dispatch_own [OF run1] r1 have o: "ownRecords st1 = [?r]" by simp
  from sr run0 c run1 o show ?thesis by blast
qed

subsection \<open>The output shard\<close>



subsection \<open>The termination barrier\<close>

text \<open>
  Claim C2. In every state the node reaches, under every schedule of its goroutines:
  if \<^verbatim>\<open>main\<close> has merged, the barrier has fired (the counter of
  \<^verbatim>\<open>waitGroup\<close> is zero) and the output is the merge of the local buffer with the
  received buffer; and if the barrier has fired, the collector is past all channels,
  exactly \<open>numServers - 1\<close> inbound connections were accepted (the first ones opened),
  the reader of each has returned at a terminator frame and closed its channel, and
  \<^verbatim>\<open>receivedRecords\<close> is, channel after channel, every record the sequential reader
  delivers from that connection's data frames.
\<close>

theorem barrier_before_merge:
  "(\<forall>out. mainpc (run cfg gs (init_node inbound)) = Merged out \<longrightarrow>
        waitGroup (run cfg gs (init_node inbound)) = 0
      \<and> (\<exists>st. dispatch (cfg_numServers cfg) (cfg_serverID cfg) (cfg_inputFile cfg) (cfg_order cfg) = Inr st
            \<and> out = merge_emit (ownRecords st) (receivedRecords (run cfg gs (init_node inbound)))))
   \<and> (waitGroup (run cfg gs (init_node inbound)) = 0 \<longrightarrow>
        collector (run cfg gs (init_node inbound)) = Finished
      \<and> int (length (readers (run cfg gs (init_node inbound)))) = int (cfg_numServers cfg) - 1
      \<and> map orig (readers (run cfg gs (init_node inbound))) = take (cfg_numServers cfg - 1) inbound
      \<and> (\<forall>r \<in> set (readers (run cfg gs (init_node inbound))).
            rpc r = Closed \<and> receiveData (orig r) [] = Inr (rsent r, rconn r))
      \<and> receivedRecords (run cfg gs (init_node inbound)) =
          concat (map rsent (readers (run cfg gs (init_node inbound)))))"
proof -
  define s where "s = run cfg gs (init_node inbound)"
  have inv: "node_inv cfg inbound s" unfolding s_def by (rule node_inv_reachable)
  then have wg: "waitGroup s = (if collector s = Finished then 0 else 1)"
    and cnt: "collector s \<noteq> NotStarted \<longrightarrow> int (length (readers s)) = int (cfg_numServers cfg) - 1"
    and og: "map orig (readers s) @ backlog s = inbound"
    and rc: "receivedRecords s = concat (map rsent (readers s))"
    and ro: "\<forall>r \<in> set (readers s). reader_ok r"
    and co: "collector_ok s" and mo: "main_ok cfg s"
    by (simp_all add: node_inv_def)
  have A: "waitGroup s = 0
      \<and> (\<exists>st. dispatch (cfg_numServers cfg) (cfg_serverID cfg) (cfg_inputFile cfg) (cfg_order cfg) = Inr st
            \<and> out = merge_emit (ownRecords st) (receivedRecords s))"
    if "mainpc s = Merged out" for out
    using mo wg that by (auto simp: main_ok_def)
  have B: "collector s = Finished
      \<and> int (length (readers s)) = int (cfg_numServers cfg) - 1
      \<and> map orig (readers s) = take (cfg_numServers cfg - 1) inbound
      \<and> (\<forall>r \<in> set (readers s). rpc r = Closed \<and> receiveData (orig r) [] = Inr (rsent r, rconn r))
      \<and> receivedRecords s = concat (map rsent (readers s))"
    if z: "waitGroup s = 0"
  proof -
    from wg z have fin: "collector s = Finished" by (simp split: if_splits)
    with cnt have len: "int (length (readers s)) = int (cfg_numServers cfg) - 1" by simp
    then have l: "length (map orig (readers s)) = cfg_numServers cfg - 1" by simp
    have "take (length (map orig (readers s))) inbound = map orig (readers s)"
      unfolding og [symmetric] by simp
    with l have tk: "map orig (readers s) = take (cfg_numServers cfg - 1) inbound" by simp
    from co fin have cl: "\<forall>r \<in> set (readers s). rpc r = Closed" by (simp add: collector_ok_def)
    have "rpc r = Closed \<and> receiveData (orig r) [] = Inr (rsent r, rconn r)"
      if "r \<in> set (readers s)" for r
      using that cl ro by (auto simp: reader_ok_def)
    with fin len tk rc show ?thesis by blast
  qed
  from A B show ?thesis unfolding s_def by blast
qed

theorem barrier_before_merge_witness:
  "mainpc (run \<lparr>cfg_numServers = 2, cfg_serverID = 0, cfg_inputFile = [], cfg_order = [1]\<rparr>
             [Main, Acceptor, Reader 0, Reader 0, Acceptor, Collector, Reader 0, Collector, Collector, Main]
             (init_node [\<lparr>pending = data_frame \<lparr>Key = replicate 10 7, Value = replicate 90 8\<rparr>
                                    @ terminator_frame, sched = []\<rparr>]))
     = Merged (replicate 10 7 @ replicate 90 8)
   \<and> waitGroup (run \<lparr>cfg_numServers = 2, cfg_serverID = 0, cfg_inputFile = [], cfg_order = [1]\<rparr>
             [Main, Acceptor, Reader 0, Reader 0, Acceptor, Collector, Reader 0, Collector, Collector, Main]
             (init_node [\<lparr>pending = data_frame \<lparr>Key = replicate 10 7, Value = replicate 90 8\<rparr>
                                    @ terminator_frame, sched = []\<rparr>])) = 0
   \<and> receivedRecords (run \<lparr>cfg_numServers = 2, cfg_serverID = 0, cfg_inputFile = [], cfg_order = [1]\<rparr>
             [Main, Acceptor, Reader 0, Reader 0, Acceptor, Collector, Reader 0, Collector, Collector, Main]
             (init_node [\<lparr>pending = data_frame \<lparr>Key = replicate 10 7, Value = replicate 90 8\<rparr>
                                    @ terminator_frame, sched = []\<rparr>]))
     = [\<lparr>Key = replicate 10 7, Value = replicate 90 8\<rparr>]"
proof -
  let ?cfg = "\<lparr>cfg_numServers = 2, cfg_serverID = 0, cfg_inputFile = [], cfg_order = [1]\<rparr>"
  let ?r = "\<lparr>Key = replicate 10 (7 :: byte), Value = replicate 90 (8 :: byte)\<rparr>"
  let ?inb = "[\<lparr>pending = data_frame ?r @ terminator_frame, sched = []\<rparr>]"
  let ?gs = "[Main, Acceptor, Reader 0, Reader 0, Acceptor, Collector, Reader 0, Collector, Collector, Main]"
  have wf: "wf_Record ?r" by (simp add: wf_Record_def)
  have d: "dispatch 2 0 [] order =
      Inr \<lparr>ownRecords = [], connections = send_terminators order (dial_peers 2 0)\<rparr>" for order
    by (rule dispatch_empty_shard) simp
  have rf: "read_frame \<lparr>pending = data_frame ?r @ terminator_frame, sched = []\<rparr> 0 [] =
      Inr (data_frame ?r, \<lparr>pending = terminator_frame, sched = []\<rparr>)"
    by (rule read_frame_single) (rule length_data_frame [OF wf])
  let ?c0 = "\<lparr>pending = data_frame ?r @ terminator_frame, sched = []\<rparr>"
  let ?c1 = "\<lparr>pending = terminator_frame, sched = []\<rparr>"
  let ?c2 = "\<lparr>pending = [], sched = []\<rparr> :: conn"
  define s0 where "s0 = init_node ?inb"
  define s1 where "s1 = s0\<lparr>mainpc := AtBarrier []\<rparr>"
  define s2 where "s2 = s1\<lparr>backlog := [],
      readers := [\<lparr>orig = ?c0, rconn = ?c0, rpc = Reading, rsent = []\<rparr>]\<rparr>"
  define s3 where "s3 = s2\<lparr>readers := [\<lparr>orig = ?c0, rconn = ?c1, rpc = Sending ?r, rsent = []\<rparr>]\<rparr>"
  define s4 where "s4 = s3\<lparr>collector := Draining 0\<rparr>"
  define s5 where "s5 = s4\<lparr>receivedRecords := [?r],
      readers := [\<lparr>orig = ?c0, rconn = ?c1, rpc = Reading, rsent = [?r]\<rparr>]\<rparr>"
  define s6 where "s6 = s5\<lparr>readers := [\<lparr>orig = ?c0, rconn = ?c2, rpc = Closed, rsent = [?r]\<rparr>]\<rparr>"
  define s7 where "s7 = s6\<lparr>collector := Draining 1\<rparr>"
  define s8 where "s8 = s7\<lparr>collector := Finished, waitGroup := 0\<rparr>"
  define s9 where "s9 = s8\<lparr>mainpc := Merged (merge_emit [] [?r])\<rparr>"
  have t1: "step ?cfg Main s0 = s1"
    by (simp add: s1_def s0_def init_node_def step_def process_over_def main_step_def d)
  have t2: "step ?cfg Acceptor s1 = s2"
    by (simp add: s2_def s1_def s0_def init_node_def step_def process_over_def acceptor_step_def)
  have t3: "step ?cfg (Reader 0) s2 = s3"
    by (simp add: s3_def s2_def s1_def s0_def init_node_def step_def process_over_def
        reader_step_def rf data_frame_control decode_data_frame [OF wf])
  have t3': "step ?cfg (Reader 0) s3 = s3"
    by (simp add: s3_def s2_def s1_def s0_def init_node_def step_def process_over_def reader_step_def)
  have t4: "step ?cfg Acceptor s3 = s4"
    by (simp add: s4_def s3_def s2_def s1_def s0_def init_node_def step_def process_over_def
        acceptor_step_def)
  have t5: "step ?cfg Collector s4 = s5"
    by (simp add: s5_def s4_def s3_def s2_def s1_def s0_def init_node_def step_def process_over_def
        collector_step_def)
  have t6: "step ?cfg (Reader 0) s5 = s6"
    by (simp add: s6_def s5_def s4_def s3_def s2_def s1_def s0_def init_node_def step_def
        process_over_def reader_step_def read_frame_terminator_only terminator_frame_control)
  have t7: "step ?cfg Collector s6 = s7"
    by (simp add: s7_def s6_def s5_def s4_def s3_def s2_def s1_def s0_def init_node_def step_def
        process_over_def collector_step_def)
  have t8: "step ?cfg Collector s7 = s8"
    by (simp add: s8_def s7_def s6_def s5_def s4_def s3_def s2_def s1_def s0_def init_node_def
        step_def process_over_def collector_step_def)
  have t9: "step ?cfg Main s8 = s9"
    by (simp add: s9_def s8_def s7_def s6_def s5_def s4_def s3_def s2_def s1_def s0_def
        init_node_def step_def process_over_def main_step_def)
  have "run ?cfg [Main, Acceptor, Reader 0, Reader 0, Acceptor, Collector, Reader 0, Collector, Collector, Main] s0 = s9"
    by (simp only: run.simps t1 t2 t3 t3' t4 t5 t6 t7 t8 t9)
  then have fin: "run ?cfg ?gs (init_node ?inb) = s9" by (simp only: s0_def)
  have s9m: "mainpc s9 = Merged (merge_emit [] [?r])" by (simp add: s9_def)
  have s9r: "receivedRecords s9 = [?r]"
    by (simp add: s9_def s8_def s7_def s6_def s5_def)
  have me: "merge_emit [] [?r] = replicate 10 7 @ replicate 90 8"
    by (simp add: merge_emit_def emit_def merge_records_def sort_Slice_def)
  from fin me s9m have m: "mainpc (run ?cfg ?gs (init_node ?inb)) = Merged (replicate 10 7 @ replicate 90 8)"
    by simp
  from barrier_before_merge [of ?cfg ?gs ?inb] m
  have w: "waitGroup (run ?cfg ?gs (init_node ?inb)) = 0" by blast
  from fin s9r have rr: "receivedRecords (run ?cfg ?gs (init_node ?inb)) = [?r]" by simp
  from m w rr show ?thesis by blast
qed

end
